theory Spec2Isabelle
  imports Complex_Main "HOL-Library.Log_Nat"
begin

section \<open>Data model\<close>

text \<open>
  The program (\<^verbatim>\<open>src/main.py\<close>) keeps the maze as a square numpy array of
  integers, \<^verbatim>\<open>1\<close> for a wall and \<^verbatim>\<open>0\<close> for a path. The array is modelled
  as a list of rows. Cell coordinates are Python integers, hence \<open>int\<close>.
  Python raises \<^verbatim>\<open>IndexError\<close> on an index out of range and
  \<^verbatim>\<open>OverflowError\<close> on \<^verbatim>\<open>int\<close> of an infinity; numpy raises
  \<^verbatim>\<open>ValueError\<close> on a dimension that is negative or too large and
  \<^verbatim>\<open>MemoryError\<close> when the array cannot be allocated. They are the values of
  \<open>error\<close>.
\<close>

datatype error = IndexError | ValueError | MemoryError | OverflowError

type_synonym grid = "int list list"

type_synonym cell = "int \<times> int"


text \<open>
  Indexing a sequence of length \<open>n\<close> with a Python integer: an index in
  \<open>[0, n)\<close> is taken as it is, one in \<open>[-n, 0)\<close> counts from the end, any other
  raises.
\<close>

definition norm_index :: "nat \<Rightarrow> int \<Rightarrow> nat option" where
  "norm_index n i =
     (if 0 \<le> i \<and> i < int n then Some (nat i)
      else if - int n \<le> i \<and> i < 0 then Some (nat (int n + i))
      else None)"

definition get2 :: "grid \<Rightarrow> int \<Rightarrow> int \<Rightarrow> error + int" where
  "get2 g i j =
     (case norm_index (length g) i of
        None \<Rightarrow> Inl IndexError
      | Some r \<Rightarrow>
          (case norm_index (length (g ! r)) j of
             None \<Rightarrow> Inl IndexError
           | Some c \<Rightarrow> Inr (g ! r ! c)))"

definition set2 :: "grid \<Rightarrow> int \<Rightarrow> int \<Rightarrow> int \<Rightarrow> error + grid" where
  "set2 g i j v =
     (case norm_index (length g) i of
        None \<Rightarrow> Inl IndexError
      | Some r \<Rightarrow>
          (case norm_index (length (g ! r)) j of
             None \<Rightarrow> Inl IndexError
           | Some c \<Rightarrow> Inr (g[r := (g ! r)[c := v]])))"

section \<open>Maze generation\<close>

text \<open>
  The state of the carving loop of \<^verbatim>\<open>Maze.generate_maze\<close>: the array, the
  stack (a Python list whose top is its last element) and the number of calls
  of \<^verbatim>\<open>random.choice\<close> made so far. The random source is a function
  \<open>rng\<close>: the \<open>k\<close>-th call of \<^verbatim>\<open>random.choice(neighbors)\<close> returns
  the element of index \<open>rng k mod len(neighbors)\<close>, so every run of the
  program is the run of the model for some \<open>rng\<close>. One call is made per carve
  step, so \<open>draws\<close> is also the number of walls removed between two cells.
\<close>

record gen_state =
  maze :: grid
  stack :: "cell list"
  draws :: nat

definition offsets :: "cell list" where
  "offsets = [(0, 2), (0, -2), (2, 0), (-2, 0)]"

definition candidates :: "int \<Rightarrow> int \<Rightarrow> cell list" where
  "candidates x y = map (\<lambda>(dx, dy). (x + dx, y + dy)) offsets"

text \<open>
  The comprehension
  \<^verbatim>\<open>[(nx, ny) for nx, ny in neighbors if 0 < nx < self.size - 1 and 0 < ny < self.size - 1 and maze[nx, ny] == 1]\<close>:
  the array is read only when the bounds test passed.
\<close>

fun filter_neighbors :: "int \<Rightarrow> grid \<Rightarrow> cell list \<Rightarrow> error + cell list" where
  "filter_neighbors sz m [] = Inr []"
| "filter_neighbors sz m ((nx, ny) # cs) =
     (if 0 < nx \<and> nx < sz - 1 \<and> 0 < ny \<and> ny < sz - 1 then
        (case get2 m nx ny of
           Inl e \<Rightarrow> Inl e
         | Inr v \<Rightarrow>
             (case filter_neighbors sz m cs of
                Inl e \<Rightarrow> Inl e
              | Inr r \<Rightarrow> Inr (if v = 1 then (nx, ny) # r else r)))
      else filter_neighbors sz m cs)"

text \<open>One iteration of the body of \<^verbatim>\<open>while stack:\<close>, for a non-empty stack.\<close>

definition carve_step :: "int \<Rightarrow> (nat \<Rightarrow> nat) \<Rightarrow> gen_state \<Rightarrow> error + gen_state" where
  "carve_step sz rng s =
     (case last (stack s) of (x, y) \<Rightarrow>
        (case filter_neighbors sz (maze s) (candidates x y) of
           Inl e \<Rightarrow> Inl e
         | Inr neighbors \<Rightarrow>
             if neighbors \<noteq> [] then
               (case neighbors ! (rng (draws s) mod length neighbors) of (nx, ny) \<Rightarrow>
                  (case set2 (maze s) ((x + nx) div 2) ((y + ny) div 2) 0 of
                     Inl e \<Rightarrow> Inl e
                   | Inr m1 \<Rightarrow>
                       (case set2 m1 nx ny 0 of
                          Inl e \<Rightarrow> Inl e
                        | Inr m2 \<Rightarrow>
                            Inr \<lparr>maze = m2, stack = stack s @ [(nx, ny)],
                                 draws = Suc (draws s)\<rparr>)))
             else Inr (s\<lparr>stack := butlast (stack s)\<rparr>)))"

text \<open>The number of wall entries of the array, and the measure of the loop.\<close>

definition walls :: "grid \<Rightarrow> nat" where
  "walls g = sum_list (map (\<lambda>row. length (filter (\<lambda>v. v = 1) row)) g)"

definition gen_measure :: "gen_state \<Rightarrow> nat" where
  "gen_measure s = 2 * walls (maze s) + length (stack s)"


subsection \<open>Termination of the carving loop\<close>

text \<open>
  Every carve step turns at least one wall entry into a path entry and pushes one
  cell; every other step pops one cell. So \<open>gen_measure\<close> decreases.
\<close>

lemma filter_update_count:
  "c < length xs \<Longrightarrow>
   length (filter P (xs[c := v])) + (if P (xs ! c) then 1 else 0) =
   length (filter P xs) + (if P v then 1 else 0)"
proof (induction xs arbitrary: c)
  case Nil
  then show ?case by simp
next
  case (Cons a xs)
  then show ?case by (cases c) auto
qed

lemma walls_update:
  assumes "r < length g" "c < length (g ! r)"
  shows "walls (g[r := (g ! r)[c := 0]]) + (if g ! r ! c = 1 then 1 else 0) = walls g"
proof -
  let ?f = "\<lambda>row. length (filter (\<lambda>v. v = (1::int)) row)"
  have a: "?f ((g ! r)[c := 0]) + (if g ! r ! c = 1 then 1 else 0) = ?f (g ! r)"
    using filter_update_count [OF assms(2), of "\<lambda>v. v = 1" 0] by simp
  have b: "sum_list ((map ?f g)[r := ?f ((g ! r)[c := 0])]) =
           sum_list (map ?f g) + ?f ((g ! r)[c := 0]) - (map ?f g) ! r"
    using assms(1) by (simp add: sum_list_update)
  have c: "(map ?f g) ! r \<le> sum_list (map ?f g)"
    using assms(1) by (simp add: member_le_sum_list)
  show ?thesis
    unfolding walls_def map_update using a b c assms(1) by (simp split: if_splits)
qed

lemma norm_index_Some: "norm_index n i = Some r \<Longrightarrow> r < n"
  by (auto simp: norm_index_def split: if_splits)

lemma walls_set2_le: "set2 g i j 0 = Inr g' \<Longrightarrow> walls g' \<le> walls g"
  using walls_update
  by (auto simp: set2_def split: option.splits dest!: norm_index_Some) (metis le_add1)

lemma walls_set2_lt:
  "get2 g i j = Inr 1 \<Longrightarrow> set2 g i j 0 = Inr g' \<Longrightarrow> walls g' < walls g"
  using walls_update
  by (auto simp: set2_def get2_def split: option.splits dest!: norm_index_Some)
     (metis less_add_one)


lemma filter_neighbors_mem:
  "filter_neighbors sz m cs = Inr r \<Longrightarrow> (nx, ny) \<in> set r \<Longrightarrow>
   (nx, ny) \<in> set cs \<and> 0 < nx \<and> nx < sz - 1 \<and> 0 < ny \<and> ny < sz - 1 \<and>
   get2 m nx ny = Inr 1"
proof (induction cs arbitrary: r)
  case Nil
  then show ?case by simp
next
  case (Cons c cs)
  obtain a b where c: "c = (a, b)" by (cases c)
  show ?case
    using Cons.prems Cons.IH unfolding c
    by (auto split: if_splits sum.splits)
qed

lemma candidates_mem:
  "(nx, ny) \<in> set (candidates x y) \<longleftrightarrow>
   (nx = x \<and> ny = y + 2) \<or> (nx = x \<and> ny = y - 2) \<or>
   (nx = x + 2 \<and> ny = y) \<or> (nx = x - 2 \<and> ny = y)"
  by (auto simp: candidates_def offsets_def)

lemma norm_index_nonneg: "0 \<le> i \<Longrightarrow> norm_index n i = (if i < int n then Some (nat i) else None)"
  by (simp add: norm_index_def)

lemma get2_set2_other:
  assumes "set2 g a b v = Inr g'" "0 \<le> a" "0 \<le> b" "0 \<le> i" "0 \<le> j" "(a, b) \<noteq> (i, j)"
  shows "get2 g' i j = get2 g i j"
  using assms
  by (auto simp: set2_def get2_def norm_index_nonneg nth_list_update
           split: option.splits if_splits)

lemma walls_positive: "get2 g i j = Inr 1 \<Longrightarrow> 0 < walls g"
proof -
  assume "get2 g i j = Inr 1"
  then obtain r c where "r < length g" "c < length (g ! r)" "g ! r ! c = 1"
    by (auto simp: get2_def split: option.splits dest!: norm_index_Some)
  then show ?thesis using walls_update [of r g c] by simp
qed

text \<open>
  The two outcomes of the body: a pop, or a carve, which makes one more call of
  \<^verbatim>\<open>random.choice\<close> and leaves fewer wall entries.
\<close>

lemma carve_step_cases:
  assumes "carve_step sz rng s = Inr s'"
  shows "s' = s\<lparr>stack := butlast (stack s)\<rparr> \<or>
         (\<exists>m2 n. s' = \<lparr>maze = m2, stack = stack s @ [n], draws = Suc (draws s)\<rparr> \<and>
                 walls m2 < walls (maze s))"
proof -
  obtain x y where xy: "last (stack s) = (x, y)" by (cases "last (stack s)")
  obtain nbs where nbs: "filter_neighbors sz (maze s) (candidates x y) = Inr nbs"
    using assms xy by (auto simp: carve_step_def split: sum.splits)
  show ?thesis
  proof (cases "nbs = []")
    case True
    then have "s' = s\<lparr>stack := butlast (stack s)\<rparr>"
      using assms xy nbs by (simp add: carve_step_def)
    then show ?thesis by simp
  next
    case ne: False
    obtain nx ny where n: "nbs ! (rng (draws s) mod length nbs) = (nx, ny)"
      by (cases "nbs ! (rng (draws s) mod length nbs)")
    have "(nx, ny) \<in> set nbs"
      using ne n by (metis length_greater_0_conv mod_less_divisor nth_mem)
    from filter_neighbors_mem [OF nbs this]
    have cand: "(nx, ny) \<in> set (candidates x y)" and pos: "0 < nx" "0 < ny"
      and wall: "get2 (maze s) nx ny = Inr 1" by auto
    obtain m1 m2 where m1: "set2 (maze s) ((x + nx) div 2) ((y + ny) div 2) 0 = Inr m1"
      and m2: "set2 m1 nx ny 0 = Inr m2"
      and s': "s' = \<lparr>maze = m2, stack = stack s @ [(nx, ny)], draws = Suc (draws s)\<rparr>"
      using assms xy nbs ne n by (auto simp: carve_step_def split: sum.splits)
    have mid: "0 \<le> (x + nx) div 2" "0 \<le> (y + ny) div 2"
      "((x + nx) div 2, (y + ny) div 2) \<noteq> (nx, ny)"
      using cand pos unfolding candidates_mem by auto
    have "get2 m1 nx ny = Inr 1"
      using get2_set2_other [OF m1 mid(1,2) _ _ mid(3)] pos wall by simp
    then have "walls m2 < walls m1" using m2 by (rule walls_set2_lt)
    moreover have "walls m1 \<le> walls (maze s)" using m1 by (rule walls_set2_le)
    ultimately show ?thesis using s' by auto
  qed
qed

lemma carve_step_decreases:
  assumes "carve_step sz rng s = Inr s'"
  shows "gen_measure s' < gen_measure s \<or> stack s = []"
  using carve_step_cases [OF assms]
  by (cases "stack s = []") (auto simp: gen_measure_def)

text \<open>The loop \<^verbatim>\<open>while stack: ...\<close>; an exception of the body ends it.\<close>

function carve_loop :: "int \<Rightarrow> (nat \<Rightarrow> nat) \<Rightarrow> gen_state \<Rightarrow> error + gen_state" where
  "carve_loop sz rng s =
     (if stack s = [] then Inr s
      else (case carve_step sz rng s of
              Inl e \<Rightarrow> Inl e
            | Inr s' \<Rightarrow> carve_loop sz rng s'))"
  by pat_completeness auto
termination
  by (relation "measure (\<lambda>(sz, rng, s). gen_measure s)")
     (use carve_step_decreases in auto)

declare carve_loop.simps [simp del]

text \<open>
  The same loop with an explicit bound on the number of evaluations of the loop
  condition: \<open>None\<close> when the bound is reached before the loop has ended.
\<close>

fun carve_fuel :: "nat \<Rightarrow> int \<Rightarrow> (nat \<Rightarrow> nat) \<Rightarrow> gen_state \<Rightarrow> (error + gen_state) option" where
  "carve_fuel 0 sz rng s = None"
| "carve_fuel (Suc n) sz rng s =
     (if stack s = [] then Some (Inr s)
      else (case carve_step sz rng s of
              Inl e \<Rightarrow> Some (Inl e)
            | Inr s' \<Rightarrow> carve_fuel n sz rng s'))"

text \<open>
  \<^verbatim>\<open>np.ones((size, size), dtype=int)\<close> on a 64-bit platform, where an entry takes
  8 bytes and the number of bytes of an array must fit a signed 64-bit integer. numpy
  raises \<^verbatim>\<open>ValueError\<close> for a negative dimension and for an array beyond that
  size, and \<^verbatim>\<open>MemoryError\<close> when the machine cannot give the bytes. The
  parameter \<open>mem\<close> is the number of bytes that the machine can give to one array.
\<close>

definition np_ones :: "int \<Rightarrow> int \<Rightarrow> error + grid" where
  "np_ones mem sz =
     (if sz < 0 then Inl ValueError
      else if 2 ^ 63 \<le> 8 * sz * sz then Inl ValueError
      else if mem < 8 * sz * sz then Inl MemoryError
      else Inr (replicate (nat sz) (replicate (nat sz) 1)))"

text \<open>
  \<^verbatim>\<open>Maze.generate_maze\<close>: the array of ones, then \<^verbatim>\<open>stack = [(1, 1)]\<close> and
  \<^verbatim>\<open>maze[1, 1] = 0\<close>, then the loop. \<open>generate_state\<close> returns the final state
  of the loop, \<open>generate_maze\<close> the array, as the source does.
\<close>

definition initial_state :: "int \<Rightarrow> int \<Rightarrow> error + gen_state" where
  "initial_state mem sz =
     (case np_ones mem sz of
        Inl e \<Rightarrow> Inl e
      | Inr m0 \<Rightarrow>
          (case set2 m0 1 1 0 of
             Inl e \<Rightarrow> Inl e
           | Inr m \<Rightarrow> Inr \<lparr>maze = m, stack = [(1, 1)], draws = 0\<rparr>))"

definition generate_state :: "int \<Rightarrow> int \<Rightarrow> (nat \<Rightarrow> nat) \<Rightarrow> error + gen_state" where
  "generate_state mem sz rng =
     (case initial_state mem sz of Inl e \<Rightarrow> Inl e | Inr s0 \<Rightarrow> carve_loop sz rng s0)"

definition generate_maze :: "int \<Rightarrow> int \<Rightarrow> (nat \<Rightarrow> nat) \<Rightarrow> error + grid" where
  "generate_maze mem sz rng =
     (case generate_state mem sz rng of Inl e \<Rightarrow> Inl e | Inr s \<Rightarrow> Inr (maze s))"

subsection \<open>Goal selection\<close>

text \<open>
  \<^verbatim>\<open>Maze.find_valid_portal_position\<close>: the inner loop
  \<^verbatim>\<open>for z in range(size - 1, 0, -1)\<close> with \<open>k\<close> values of \<open>z\<close> left, then the
  outer loop over \<open>x\<close>. \<open>None\<close> is the end of a loop without a
  \<^verbatim>\<open>return\<close>.
\<close>

fun scan_row :: "grid \<Rightarrow> int \<Rightarrow> nat \<Rightarrow> error + cell option" where
  "scan_row g x 0 = Inr None"
| "scan_row g x (Suc k) =
     (case get2 g x (int (Suc k)) of
        Inl e \<Rightarrow> Inl e
      | Inr v \<Rightarrow> if v = 0 then Inr (Some (x, int (Suc k))) else scan_row g x k)"

fun scan_rows :: "grid \<Rightarrow> nat \<Rightarrow> nat \<Rightarrow> error + cell option" where
  "scan_rows g n 0 = Inr None"
| "scan_rows g n (Suc k) =
     (case scan_row g (int (Suc k)) n of
        Inl e \<Rightarrow> Inl e
      | Inr (Some c) \<Rightarrow> Inr (Some c)
      | Inr None \<Rightarrow> scan_rows g n k)"

definition find_valid_portal_position :: "int \<Rightarrow> grid \<Rightarrow> error + cell" where
  "find_valid_portal_position sz g =
     (case scan_rows g (nat (sz - 1)) (nat (sz - 1)) of
        Inl e \<Rightarrow> Inl e
      | Inr (Some c) \<Rightarrow> Inr c
      | Inr None \<Rightarrow> Inr (1, 1))"



section \<open>Double-precision arithmetic\<close>

text \<open>
  Python floats and numpy's \<^verbatim>\<open>float64\<close> are IEEE 754 binary64 numbers. A finite
  double is modelled by the real number it denotes, and every operation by the exact
  operation followed by rounding to the nearest double, ties to the even significand,
  with gradual underflow. A result of magnitude \<open>2 ^ 1024\<close> or more stands for an
  infinity: the program's only use of one is \<^verbatim>\<open>int\<close>, which raises
  \<^verbatim>\<open>OverflowError\<close>, and a comparison, which the magnitude decides alike. Signed
  zeros are not told apart, and NaN, which finite operands never produce here, is
  outside the model.

  \<open>expo v\<close> is the binary exponent of \<open>v\<close>: \<open>2 ^ expo v \<le> \<bar>v\<bar> < 2 ^ (expo v + 1)\<close>.
\<close>

definition expo :: "real \<Rightarrow> int" where
  "expo v = (if 1 \<le> \<bar>v\<bar> then bitlen \<lfloor>\<bar>v\<bar>\<rfloor> - 1 else - bitlen (\<lceil>1 / \<bar>v\<bar>\<rceil> - 1))"

definition round_half_even :: "real \<Rightarrow> int" where
  "round_half_even t =
     (let f = \<lfloor>t\<rfloor>; r = t - of_int f in
      if r < 1 / 2 then f else if 1 / 2 < r then f + 1 else if even f then f else f + 1)"

text \<open>
  Rounding to 53 significant bits; below \<open>2 ^ - 1022\<close> the spacing stays
  \<open>2 ^ - 1074\<close>.
\<close>

definition fl :: "real \<Rightarrow> real" where
  "fl v =
     (if v = 0 then 0
      else (let e = max (expo v - 52) (- 1074) in
            of_int (round_half_even (v / 2 powi e)) * 2 powi e))"

definition fadd :: "real \<Rightarrow> real \<Rightarrow> real" where
  "fadd a b = fl (a + b)"

definition fsub :: "real \<Rightarrow> real \<Rightarrow> real" where
  "fsub a b = fl (a - b)"

definition fsqrt :: "real \<Rightarrow> real" where
  "fsqrt a = fl (sqrt a)"

text \<open>The largest finite double.\<close>

definition DBL_MAX :: real where
  "DBL_MAX = 2 ^ 1024 - 2 ^ 971"

text \<open>
  \<^verbatim>\<open>int(v)\<close> of a float truncates towards zero and raises on an infinity.
\<close>

definition py_int :: "real \<Rightarrow> int" where
  "py_int v = (if 0 \<le> v then \<lfloor>v\<rfloor> else \<lceil>v\<rceil>)"

definition int_of_double :: "real \<Rightarrow> error + int" where
  "int_of_double v = (if 2 ^ 1024 \<le> \<bar>v\<bar> then Inl OverflowError else Inr (py_int v))"

section \<open>The camera\<close>

text \<open>
  The literal \<^verbatim>\<open>0.2\<close> is the double nearest to one fifth; \<^verbatim>\<open>1.5\<close> and
  \<^verbatim>\<open>0.5\<close> are doubles themselves.
\<close>

definition PLAYER_RADIUS :: real where
  "PLAYER_RADIUS = fl (2 / 10)"

record camera =
  cam_x :: real
  cam_y :: real
  cam_z :: real
  angle_yaw :: real

definition Camera_init :: camera where
  "Camera_init = \<lparr>cam_x = 15 / 10, cam_y = 5 / 10, cam_z = 15 / 10, angle_yaw = 0\<rparr>"

text \<open>
  The two nested loops of \<^verbatim>\<open>Camera.can_move\<close> visit the corners in this
  order, each coordinate a rounded sum. For every corner,
  \<^verbatim>\<open>self.maze.grid[int(check_x)][int(check_z)]\<close> converts and indexes the row
  first, then the column; the first wall entry returns \<^verbatim>\<open>False\<close>, the first
  failure raises.
\<close>

definition corners :: "real \<Rightarrow> real \<Rightarrow> real \<Rightarrow> (real \<times> real) list" where
  "corners R new_x new_z =
     concat (map (\<lambda>dx. map (\<lambda>dz. (fadd new_x dx, fadd new_z dz)) [- R, R]) [- R, R])"

fun check_corners :: "grid \<Rightarrow> (real \<times> real) list \<Rightarrow> error + bool" where
  "check_corners g [] = Inr True"
| "check_corners g ((check_x, check_z) # ps) =
     (case int_of_double check_x of
        Inl e \<Rightarrow> Inl e
      | Inr i \<Rightarrow>
          (case norm_index (length g) i of
             None \<Rightarrow> Inl IndexError
           | Some r \<Rightarrow>
               (case int_of_double check_z of
                  Inl e \<Rightarrow> Inl e
                | Inr j \<Rightarrow>
                    (case norm_index (length (g ! r)) j of
                       None \<Rightarrow> Inl IndexError
                     | Some c \<Rightarrow>
                         if g ! r ! c = 1 then Inr False else check_corners g ps))))"

text \<open>
  \<^verbatim>\<open>Camera.can_move\<close> with the radius as a parameter; the program's own
  test is \<open>can_move\<close>, at \<open>PLAYER_RADIUS\<close>. Both conversions of the first line
  come first. The conjunction of the source is evaluated from left to right, so
  \<^verbatim>\<open>grid[0]\<close> and \<^verbatim>\<open>grid[maze_x][maze_z]\<close> are read only after the tests
  before them.
\<close>

definition can_move_r :: "real \<Rightarrow> grid \<Rightarrow> real \<Rightarrow> real \<Rightarrow> error + bool" where
  "can_move_r R g new_x new_z =
     (case int_of_double new_x of
        Inl e \<Rightarrow> Inl e
      | Inr maze_x \<Rightarrow>
          (case int_of_double new_z of
             Inl e \<Rightarrow> Inl e
           | Inr maze_z \<Rightarrow>
               if 0 \<le> maze_x \<and> maze_x < int (length g) then
                 if 0 \<le> maze_z \<and> maze_z < int (length (g ! 0)) then
                   (case get2 g maze_x maze_z of
                      Inl e \<Rightarrow> Inl e
                    | Inr v \<Rightarrow>
                        if v = 0 then check_corners g (corners R new_x new_z)
                        else Inr False)
                 else Inr False
               else Inr False))"


text \<open>
  \<^verbatim>\<open>Camera.move\<close>: both sums first, then the x axis, then the z axis at the x
  just set.
\<close>

definition move_r :: "real \<Rightarrow> grid \<Rightarrow> camera \<Rightarrow> real \<Rightarrow> real \<Rightarrow> error + camera" where
  "move_r R g cam dx dz =
     (let new_x = fadd (cam_x cam) dx; new_z = fadd (cam_z cam) dz in
      case can_move_r R g new_x (cam_z cam) of
        Inl e \<Rightarrow> Inl e
      | Inr b1 \<Rightarrow>
          (let cam1 = (if b1 then cam\<lparr>cam_x := new_x\<rparr> else cam) in
           case can_move_r R g (cam_x cam1) new_z of
             Inl e \<Rightarrow> Inl e
           | Inr b2 \<Rightarrow> Inr (if b2 then cam1\<lparr>cam_z := new_z\<rparr> else cam1)))"

definition move :: "grid \<Rightarrow> camera \<Rightarrow> real \<Rightarrow> real \<Rightarrow> error + camera" where
  "move = move_r PLAYER_RADIUS"

definition rotate :: "camera \<Rightarrow> real \<Rightarrow> camera" where
  "rotate cam angle = cam\<lparr>angle_yaw := fadd (angle_yaw cam) angle\<rparr>"

text \<open>A sequence of calls of \<^verbatim>\<open>move\<close>; the first exception ends it.\<close>

fun moves_r :: "real \<Rightarrow> grid \<Rightarrow> camera \<Rightarrow> (real \<times> real) list \<Rightarrow> error + camera" where
  "moves_r R g cam [] = Inr cam"
| "moves_r R g cam ((dx, dz) # ds) =
     (case move_r R g cam dx dz of
        Inl e \<Rightarrow> Inl e
      | Inr cam' \<Rightarrow> moves_r R g cam' ds)"

text \<open>
  \<^verbatim>\<open>Camera.check_portal_collision\<close>:
  \<^verbatim>\<open>np.sqrt((self.x - portal_x) ** 2 + (self.z - portal_z) ** 2) < 0.5\<close>.
  The differences, the sum and the square root are correctly rounded. The squares are
  calls of the power function of the C library, which is not in the source: it is the
  parameter \<open>pw2\<close>. \<open>sq_rn\<close> is the correctly rounded square.
\<close>

definition sq_rn :: "real \<Rightarrow> real" where
  "sq_rn a = fl (a * a)"

definition check_portal_collision :: "(real \<Rightarrow> real) \<Rightarrow> camera \<Rightarrow> real \<times> real \<Rightarrow> bool" where
  "check_portal_collision pw2 cam portal =
     (case portal of (portal_x, portal_z) \<Rightarrow>
        fsqrt (fadd (pw2 (fsub (cam_x cam) portal_x)) (pw2 (fsub (cam_z cam) portal_z)))
          < fl (5 / 10))"

section \<open>Notions of the specification\<close>

text \<open>A square array of side \<open>n\<close>.\<close>

definition square_grid :: "nat \<Rightarrow> grid \<Rightarrow> bool" where
  "square_grid n g = (length g = n \<and> list_all (\<lambda>row. length row = n) g)"

text \<open>
  The grid of the wall-sliding scenario of the specification, five by five: cell
  (2,2) is a path, cell (2,3) a wall, cell (3,2) a path.
\<close>

definition sliding_scenario_grid :: grid where
  "sliding_scenario_grid =
     [[1, 1, 1, 1, 1],
      [1, 1, 1, 1, 1],
      [1, 1, 0, 1, 1],
      [1, 1, 0, 1, 1],
      [1, 1, 1, 1, 1]]"

text \<open>
  The entry of a cell that lies inside the array (no wrap-around of negative
  indices here: a cell outside the array is no cell), path cells, and the set of
  path cells of a grid.
\<close>

definition cell_at :: "grid \<Rightarrow> cell \<Rightarrow> int option" where
  "cell_at g c =
     (case c of (i, j) \<Rightarrow>
        if 0 \<le> i \<and> i < int (length g) \<and> 0 \<le> j \<and> j < int (length (g ! nat i))
        then Some (g ! nat i ! nat j) else None)"

definition is_path :: "grid \<Rightarrow> cell \<Rightarrow> bool" where
  "is_path g c = (cell_at g c = Some 0)"

definition paths :: "grid \<Rightarrow> cell set" where
  "paths g = {c. is_path g c}"

text \<open>4-adjacency of cells, and simple paths through a set of cells.\<close>

definition adjacent :: "cell \<Rightarrow> cell \<Rightarrow> bool" where
  "adjacent a b = (\<bar>fst a - fst b\<bar> + \<bar>snd a - snd b\<bar> = 1)"

definition spath :: "cell set \<Rightarrow> cell \<Rightarrow> cell \<Rightarrow> cell list \<Rightarrow> bool" where
  "spath V a b p =
     (p \<noteq> [] \<and> hd p = a \<and> last p = b \<and> distinct p \<and> set p \<subseteq> V \<and>
      successively adjacent p)"

text \<open>
  A simple path of a grid from \<open>a\<close> to \<open>b\<close>: a list of distinct path cells,
  each adjacent to the next. A cycle: at least three distinct path cells, each
  adjacent to the next and the last to the first.
\<close>

definition simple_path :: "grid \<Rightarrow> cell \<Rightarrow> cell \<Rightarrow> cell list \<Rightarrow> bool" where
  "simple_path g a b p =
     (p \<noteq> [] \<and> hd p = a \<and> last p = b \<and> distinct p \<and> list_all (is_path g) p \<and>
      successively adjacent p)"

definition cycle :: "grid \<Rightarrow> cell list \<Rightarrow> bool" where
  "cycle g p =
     (3 \<le> length p \<and> distinct p \<and> list_all (is_path g) p \<and>
      successively adjacent p \<and> adjacent (last p) (hd p))"

text \<open>Unique simple paths between any two cells of a set: the set is a tree.\<close>

definition tree :: "cell set \<Rightarrow> bool" where
  "tree V = (\<forall>a\<in>V. \<forall>b\<in>V. \<exists>!p. spath V a b p)"

text \<open>
  The shape of the path cells during generation, for a grid of side \<open>sz\<close>: the
  start cell is a path; every path cell is strictly inside the outer ring and has an
  odd coordinate; a cell with two odd coordinates that is not a path has no path
  neighbour.
\<close>

definition maze_shape :: "int \<Rightarrow> cell set \<Rightarrow> bool" where
  "maze_shape sz P =
     ((1, 1) \<in> P \<and>
      (\<forall>i j. (i, j) \<in> P \<longrightarrow> 0 < i \<and> i < sz - 1 \<and> 0 < j \<and> j < sz - 1 \<and> (odd i \<or> odd j)) \<and>
      (\<forall>i j c. odd i \<and> odd j \<and> (i, j) \<notin> P \<and> adjacent (i, j) c \<longrightarrow> c \<notin> P))"

text \<open>The number of path entries of the array.\<close>

definition path_count :: "grid \<Rightarrow> nat" where
  "path_count g = sum_list (map (\<lambda>row. length (filter (\<lambda>v. v = 0) row)) g)"

definition binary :: "grid \<Rightarrow> bool" where
  "binary g = list_all (list_all (\<lambda>v. v = 0 \<or> v = 1)) g"

definition gen_inv :: "int \<Rightarrow> gen_state \<Rightarrow> bool" where
  "gen_inv sz s =
     (square_grid (nat sz) (maze s) \<and> binary (maze s) \<and>
      (1, 1) \<in> paths (maze s) \<and>
      (\<forall>i j. (i, j) \<in> paths (maze s) \<longrightarrow> 0 < i \<and> 0 < j) \<and>
      (3 \<le> sz \<longrightarrow> maze_shape sz (paths (maze s))) \<and>
      (\<forall>x y. (x, y) \<in> set (stack s) \<longrightarrow> odd x \<and> odd y \<and> (x, y) \<in> paths (maze s)) \<and>
      tree (paths (maze s)) \<and>
      path_count (maze s) = 2 * draws s + 1)"

text \<open>
  The sizes for which the array of ones is allocated on a machine that gives \<open>mem\<close>
  bytes, and a machine for concrete runs, which gives one gibibyte.
\<close>

definition allocates :: "int \<Rightarrow> int \<Rightarrow> bool" where
  "allocates mem sz = (0 \<le> sz \<and> 8 * sz * sz < 2 ^ 63 \<and> 8 * sz * sz \<le> mem)"

definition mem_sample :: int where
  "mem_sample = 2 ^ 30"

text \<open>
  A random source for concrete runs: the one that always picks the first neighbour of
  the list.
\<close>

definition rng_first :: "nat \<Rightarrow> nat" where
  "rng_first k = 0"

text \<open>The grid that generation of size five gives with \<open>rng_first\<close>.\<close>

definition grid5 :: grid where
  "grid5 =
     [[1, 1, 1, 1, 1],
      [1, 0, 0, 0, 1],
      [1, 1, 1, 0, 1],
      [1, 0, 0, 0, 1],
      [1, 1, 1, 1, 1]]"

text \<open>
  The order in which the specification scans for the goal: rows from \<open>N - 1\<close> down
  to 1 and, within each row, columns from \<open>N - 1\<close> down to 1.
\<close>

definition scan_order :: "int \<Rightarrow> cell list" where
  "scan_order sz = concat (map (\<lambda>x. map (\<lambda>z. (x, z)) (rev [1..sz - 1])) (rev [1..sz - 1]))"

text \<open>
  The cell that contains the centre \<open>(x, z)\<close> and the cells that contain the four
  corners of the square of half-width \<open>R\<close> around it, the corners being the rounded
  sums that the program computes; and the disc query: all five are path cells inside
  the grid.
\<close>

definition disc_cells :: "real \<Rightarrow> real \<Rightarrow> real \<Rightarrow> cell list" where
  "disc_cells R x z =
     [(\<lfloor>x\<rfloor>, \<lfloor>z\<rfloor>),
      (\<lfloor>fadd x (- R)\<rfloor>, \<lfloor>fadd z (- R)\<rfloor>), (\<lfloor>fadd x (- R)\<rfloor>, \<lfloor>fadd z R\<rfloor>),
      (\<lfloor>fadd x R\<rfloor>, \<lfloor>fadd z (- R)\<rfloor>), (\<lfloor>fadd x R\<rfloor>, \<lfloor>fadd z R\<rfloor>)]"

definition free_for_disc :: "grid \<Rightarrow> real \<Rightarrow> real \<Rightarrow> real \<Rightarrow> bool" where
  "free_for_disc g R x z = list_all (is_path g) (disc_cells R x z)"

text \<open>
  The cells that the closed square of half-width \<open>R\<close> around \<open>(x, z)\<close> meets, in
  exact arithmetic, and the containment predicate of the specification on a position:
  every such cell is a path cell inside the grid.
\<close>

definition overlap_cells :: "real \<Rightarrow> real \<Rightarrow> real \<Rightarrow> cell list" where
  "overlap_cells R x z =
     concat (map (\<lambda>i. map (\<lambda>j. (i, j)) [\<lfloor>z - R\<rfloor>..\<lfloor>z + R\<rfloor>]) [\<lfloor>x - R\<rfloor>..\<lfloor>x + R\<rfloor>])"

definition wall_free :: "grid \<Rightarrow> real \<Rightarrow> real \<Rightarrow> real \<Rightarrow> bool" where
  "wall_free g R x z = list_all (is_path g) (overlap_cells R x z)"

section \<open>Basic facts\<close>

lemma get2_in_range:
  "get2 g i j = Inr v \<Longrightarrow> 0 \<le> i \<Longrightarrow> 0 \<le> j \<Longrightarrow>
   nat i < length g \<and> nat j < length (g ! nat i) \<and> g ! nat i ! nat j = v"
  by (auto simp: get2_def norm_index_nonneg split: if_splits)

lemma square_grid_row: "square_grid n g \<Longrightarrow> i < n \<Longrightarrow> length (g ! i) = n"
  by (auto simp: square_grid_def list_all_length)

section \<open>Rounding\<close>

text \<open>
  The exponent is the one of the binade of the number, and rounding moves a number by
  at most half a unit in the last place.
\<close>

lemma round_half_even_error: "\<bar>of_int (round_half_even t) - t\<bar> \<le> 1 / 2"
proof -
  have "of_int \<lfloor>t\<rfloor> \<le> t" "t < of_int \<lfloor>t\<rfloor> + 1" by linarith+
  then show ?thesis by (auto simp: round_half_even_def Let_def)
qed

lemma pow2_le_real: "(2::int) ^ k \<le> n \<Longrightarrow> (2::real) ^ k \<le> of_int n"
proof -
  assume "(2::int) ^ k \<le> n"
  then have "(of_int ((2::int) ^ k) :: real) \<le> of_int n" by (simp only: of_int_le_iff)
  then show ?thesis by simp
qed

lemma real_succ_le_pow2: "n < (2::int) ^ k \<Longrightarrow> of_int n + 1 \<le> (2::real) ^ k"
proof -
  assume "n < (2::int) ^ k"
  then have "n + 1 \<le> (2::int) ^ k" by simp
  then have "(of_int (n + 1) :: real) \<le> of_int ((2::int) ^ k)" by (simp only: of_int_le_iff)
  then show ?thesis by simp
qed

lemma expo_bounds:
  assumes "v \<noteq> 0"
  shows "2 powi expo v \<le> \<bar>v\<bar> \<and> \<bar>v\<bar> < 2 powi (expo v + 1)"
proof (cases "1 \<le> \<bar>v\<bar>")
  case True
  define n where "n = \<lfloor>\<bar>v\<bar>\<rfloor>"
  have n: "0 < n" "of_int n \<le> \<bar>v\<bar>" "\<bar>v\<bar> < of_int n + 1"
    using True unfolding n_def by auto
  have b: "1 \<le> bitlen n" using n(1) by (simp add: bitlen_alt_def)
  from bitlen_bounds [OF n(1)]
  have lo: "(2::int) ^ nat (bitlen n - 1) \<le> n" and hi: "n < (2::int) ^ nat (bitlen n)"
    by auto
  have lo': "(2::real) ^ nat (bitlen n - 1) \<le> of_int n"
    using lo by (rule pow2_le_real)
  have hi': "of_int n + 1 \<le> (2::real) ^ nat (bitlen n)"
    using hi by (rule real_succ_le_pow2)
  have e: "expo v = bitlen n - 1" using True by (simp add: expo_def n_def)
  have p1: "(2::real) powi (bitlen n - 1) = 2 ^ nat (bitlen n - 1)"
    using b by (simp add: power_int_def)
  have p2: "(2::real) powi (bitlen n - 1 + 1) = 2 ^ nat (bitlen n)"
    using b by (simp add: power_int_def)
  show ?thesis unfolding e p1 p2 using lo' hi' n(2,3) by linarith
next
  case False
  define y where "y = 1 / \<bar>v\<bar>"
  have y: "1 < y" using False assms by (simp add: y_def)
  define n where "n = \<lceil>y\<rceil> - 1"
  have n: "0 < n" "of_int n < y" "y \<le> of_int n + 1"
    using y unfolding n_def by (auto simp: less_ceiling_iff) linarith+
  have b: "1 \<le> bitlen n" using n(1) by (simp add: bitlen_alt_def)
  from bitlen_bounds [OF n(1)]
  have lo: "(2::int) ^ nat (bitlen n - 1) \<le> n" and hi: "n < (2::int) ^ nat (bitlen n)"
    by auto
  have lo': "(2::real) ^ nat (bitlen n - 1) \<le> of_int n"
    using lo by (rule pow2_le_real)
  have hi': "of_int n + 1 \<le> (2::real) ^ nat (bitlen n)"
    using hi by (rule real_succ_le_pow2)
  have e: "expo v = - bitlen n" using False by (simp add: expo_def n_def y_def)
  have v: "\<bar>v\<bar> = 1 / y" "0 < \<bar>v\<bar>" using assms by (simp_all add: y_def)
  have yh: "y \<le> (2::real) ^ nat (bitlen n)" using n(3) hi' by linarith
  have yl: "(2::real) ^ nat (bitlen n - 1) < y" using n(2) lo' by linarith
  have y0: "0 < y" using y by simp
  have a: "1 / (2::real) ^ nat (bitlen n) \<le> 1 / y"
    using yh y0 by (simp add: frac_le)
  have c: "1 / y < 1 / (2::real) ^ nat (bitlen n - 1)"
    using yl by (simp add: frac_less2)
  have p1: "(2::real) powi (- bitlen n) = 1 / 2 ^ nat (bitlen n)"
    using b by (simp add: power_int_def inverse_eq_divide power_one_over)
  have p2: "(2::real) powi (- bitlen n + 1) = 1 / 2 ^ nat (bitlen n - 1)"
  proof (cases "bitlen n = 1")
    case True
    then show ?thesis by simp
  next
    case False
    then have "- bitlen n + 1 < 0" using b by simp
    moreover have "nat (- (- bitlen n + 1)) = nat (bitlen n - 1)" by simp
    ultimately show ?thesis
      by (simp add: power_int_def inverse_eq_divide power_one_over del: minus_add_distrib)
  qed
  show ?thesis unfolding e v(1) p1 p2 using a c by simp
qed

lemma fl_error_abs:
  "\<bar>fl v - v\<bar> \<le> 2 powi (max (expo v - 52) (- 1074)) / 2"
proof (cases "v = 0")
  case True
  then show ?thesis by (simp add: fl_def)
next
  case False
  define e where "e = max (expo v - 52) (- 1074)"
  define p where "p = (2::real) powi e"
  have p: "0 < p" by (simp add: p_def)
  have "fl v - v = (of_int (round_half_even (v / p)) - v / p) * p"
    using False p by (simp add: fl_def e_def p_def Let_def algebra_simps)
  then have "\<bar>fl v - v\<bar> = \<bar>of_int (round_half_even (v / p)) - v / p\<bar> * p"
    using p by (simp add: abs_mult)
  also have "\<dots> \<le> 1 / 2 * p"
    using round_half_even_error [of "v / p"] p by (intro mult_right_mono) simp_all
  finally show ?thesis by (simp add: p_def e_def)
qed

lemma fl_error: "\<bar>fl v - v\<bar> \<le> \<bar>v\<bar> / 2 ^ 53 + 2 powi (- 1075)"
proof (cases "v = 0")
  case True
  then show ?thesis by (simp add: fl_def)
next
  case False
  show ?thesis
  proof (cases "- 1074 \<le> expo v - 52")
    case True
    then have "max (expo v - 52) (- 1074) = expo v - 52" by simp
    then have "\<bar>fl v - v\<bar> \<le> 2 powi (expo v - 52) / 2" using fl_error_abs [of v] by simp
    also have "\<dots> = 2 powi expo v / 2 ^ 53"
      by (simp add: power_int_diff)
    also have "\<dots> \<le> \<bar>v\<bar> / 2 ^ 53"
      using expo_bounds [OF False] by (simp add: divide_right_mono)
    finally show ?thesis by (simp add: add_increasing2 del: power_int_minus)
  next
    case False
    then have "max (expo v - 52) (- 1074) = - 1074" by simp
    then have "\<bar>fl v - v\<bar> \<le> 2 powi (- 1074) / 2" using fl_error_abs [of v] by simp
    also have "\<dots> = 2 powi (- 1075)"
      using power_int_diff [of "2::real" "- 1074" 1] by simp
    finally show ?thesis by (simp add: add_increasing)
  qed
qed

text \<open>Conversion to an integer of a double of moderate size, and one corner of the loop.\<close>

lemma int_of_double_small: "\<bar>v\<bar> < 2 ^ 53 \<Longrightarrow> int_of_double v = Inr (py_int v)"
proof -
  assume a: "\<bar>v\<bar> < 2 ^ 53"
  have "(2::real) ^ 53 \<le> 2 ^ 1024" by (rule power_increasing) simp_all
  then have "\<not> 2 ^ 1024 \<le> \<bar>v\<bar>" using a by linarith
  then show ?thesis by (simp only: int_of_double_def if_False)
qed

lemma py_int_bound: "py_int v = k \<Longrightarrow> \<bar>v\<bar> < \<bar>of_int k\<bar> + 1"
  by (auto simp: py_int_def split: if_splits) linarith+

lemma int_of_double_eval:
  assumes "py_int v = k" "\<bar>k\<bar> < 2 ^ 52"
  shows "int_of_double v = Inr k"
proof -
  have "\<bar>real_of_int k\<bar> + 1 \<le> 2 ^ 52"
  proof -
    have "\<bar>k\<bar> + 1 \<le> 2 ^ 52" using assms(2) by simp
    then have "real_of_int (\<bar>k\<bar> + 1) \<le> real_of_int (2 ^ 52)" by (simp only: of_int_le_iff)
    then show ?thesis by simp
  qed
  then have "\<bar>v\<bar> < 2 ^ 53" using py_int_bound [OF assms(1)] by simp
  from int_of_double_small [OF this] show ?thesis using assms(1) by simp
qed

lemma check_corners_step:
  assumes "int_of_double cx = Inr i" "int_of_double cz = Inr j"
  shows "check_corners g ((cx, cz) # ps) =
         (case get2 g i j of
            Inl e \<Rightarrow> Inl e
          | Inr v \<Rightarrow> if v = 1 then Inr False else check_corners g ps)"
  using assms by (simp add: get2_def split: option.splits)

section \<open>Trees of cells\<close>

text \<open>
  Adding to a tree a new cell with exactly one neighbour in the tree gives a tree:
  a simple path cannot pass through the new cell, it can only end there.
\<close>

lemma adjacent_sym: "adjacent a b \<Longrightarrow> adjacent b a"
  by (simp add: adjacent_def abs_minus_commute)

lemma spath_mono: "spath V a b p \<Longrightarrow> V \<subseteq> W \<Longrightarrow> spath W a b p"
  by (auto simp: spath_def)

lemma spath_restrict: "spath (insert n V) a b p \<Longrightarrow> n \<notin> set p \<Longrightarrow> spath V a b p"
  by (auto simp: spath_def)

lemma spath_same: "spath V a a p \<Longrightarrow> p = [a]"
proof -
  assume h: "spath V a a p"
  then obtain q where p: "p = a # q" by (cases p) (auto simp: spath_def)
  show ?thesis
  proof (cases q)
    case Nil
    then show ?thesis using p by simp
  next
    case (Cons x xs)
    then have "last p \<in> set q" using p by auto
    then show ?thesis using h p by (auto simp: spath_def)
  qed
qed

lemma spath_avoids_leaf:
  assumes p: "spath (insert n V) a b p" and a: "a \<noteq> n" and b: "b \<noteq> n"
    and nV: "n \<notin> V" and only: "\<forall>v\<in>V. adjacent v n \<longrightarrow> v = c"
  shows "n \<notin> set p"
proof
  assume "n \<in> set p"
  then obtain xs ys where sp: "p = xs @ n # ys" by (meson split_list)
  have xs: "xs \<noteq> []" using p a sp by (auto simp: spath_def)
  have ys: "ys \<noteq> []" using p b sp by (auto simp: spath_def)
  have d: "distinct (xs @ n # ys)" and sub: "set (xs @ n # ys) \<subseteq> insert n V"
    and suc: "successively adjacent (xs @ n # ys)"
    using p sp by (auto simp: spath_def)
  have l: "last xs \<in> set xs" and h: "hd ys \<in> set ys" using xs ys by auto
  have "adjacent (last xs) n" and "adjacent n (hd ys)"
    using suc xs ys by (auto simp: successively_append_iff successively_Cons)
  moreover have "last xs \<in> V" "hd ys \<in> V" using l h d sub by auto
  ultimately have "last xs = c" "hd ys = c" using only adjacent_sym by blast+
  then show False using l h d by auto
qed

lemma spath_to_leaf:
  assumes p: "spath (insert n V) a n p" and a: "a \<noteq> n"
    and nV: "n \<notin> V" and only: "\<forall>v\<in>V. adjacent v n \<longrightarrow> v = c"
  shows "\<exists>q. p = q @ [n] \<and> spath V a c q"
proof -
  have ne: "p \<noteq> []" and lp: "last p = n" using p by (auto simp: spath_def)
  define q where "q = butlast p"
  have pq: "p = q @ [n]" using ne lp unfolding q_def by (metis append_butlast_last_id)
  have q: "q \<noteq> []" using p a pq by (cases q) (auto simp: spath_def)
  have d: "distinct (q @ [n])" and sub: "set (q @ [n]) \<subseteq> insert n V"
    and suc: "successively adjacent (q @ [n])" and hd: "hd (q @ [n]) = a"
    using p pq by (auto simp: spath_def)
  have "adjacent (last q) n" using suc q by (auto simp: successively_append_iff)
  moreover have "last q \<in> set q" using q by simp
  then have "last q \<in> V" using d sub by auto
  ultimately have "last q = c" using only by blast
  moreover have "successively adjacent q" using suc by (auto simp: successively_append_iff)
  ultimately have "spath V a c q"
    using q d sub hd by (auto simp: spath_def)
  then show ?thesis using pq by blast
qed

lemma successively_adjacent_flip:
  "successively (\<lambda>x y. adjacent y x) p = successively adjacent p"
proof -
  have "(\<lambda>x y. adjacent y x) = adjacent"
    by (intro ext) (auto dest: adjacent_sym)
  then show ?thesis by (rule arg_cong)
qed

lemma spath_rev: "spath V a b p \<Longrightarrow> spath V b a (rev p)"
  by (auto simp: spath_def hd_rev last_rev successively_adjacent_flip)

lemma spath_snoc:
  "spath V a c q \<Longrightarrow> adjacent c n \<Longrightarrow> n \<notin> V \<Longrightarrow> spath (insert n V) a n (q @ [n])"
  by (auto simp: spath_def successively_append_iff)


lemma tree_leaf_to:
  assumes t: "tree V" and nV: "n \<notin> V" and cV: "c \<in> V" and adj: "adjacent c n"
    and only: "\<forall>v\<in>V. adjacent v n \<longrightarrow> v = c" and a: "a \<in> V"
  shows "\<exists>!p. spath (insert n V) a n p"
proof -
  have an: "a \<noteq> n" using a nV by auto
  from t a cV obtain q where q: "spath V a c q" and uq: "\<And>q'. spath V a c q' \<Longrightarrow> q' = q"
    unfolding tree_def by blast
  show ?thesis
  proof (rule ex1I [of _ "q @ [n]"])
    show "spath (insert n V) a n (q @ [n])" using q adj nV by (rule spath_snoc)
  next
    fix p assume "spath (insert n V) a n p"
    from spath_to_leaf [OF this an nV only] uq show "p = q @ [n]" by auto
  qed
qed

lemma tree_leaf_from:
  assumes t: "tree V" and nV: "n \<notin> V" and cV: "c \<in> V" and adj: "adjacent c n"
    and only: "\<forall>v\<in>V. adjacent v n \<longrightarrow> v = c" and b: "b \<in> V"
  shows "\<exists>!p. spath (insert n V) n b p"
proof -
  from tree_leaf_to [OF t nV cV adj only b]
  obtain q where q: "spath (insert n V) b n q"
    and uq: "\<And>q'. spath (insert n V) b n q' \<Longrightarrow> q' = q" by blast
  show ?thesis
  proof (rule ex1I [of _ "rev q"])
    show "spath (insert n V) n b (rev q)" using q by (rule spath_rev)
  next
    fix p assume "spath (insert n V) n b p"
    then have "rev p = q" using uq spath_rev by blast
    then show "p = rev q" by auto
  qed
qed

lemma tree_leaf:
  assumes t: "tree V" and nV: "n \<notin> V" and cV: "c \<in> V" and adj: "adjacent c n"
    and only: "\<forall>v\<in>V. adjacent v n \<longrightarrow> v = c"
  shows "tree (insert n V)"
  unfolding tree_def
proof (intro ballI)
  fix a b assume a: "a \<in> insert n V" and b: "b \<in> insert n V"
  consider (nn) "a = n" "b = n" | (an) "a \<in> V" "b = n" | (nb) "a = n" "b \<in> V"
    | (vv) "a \<in> V" "b \<in> V" "a \<noteq> n" "b \<noteq> n"
    using a b nV by blast
  then show "\<exists>!p. spath (insert n V) a b p"
  proof cases
    case nn
    have "spath (insert n V) n n [n]" by (simp add: spath_def)
    then show ?thesis using nn spath_same by blast
  next
    case an
    then show ?thesis using tree_leaf_to [OF t nV cV adj only] by simp
  next
    case nb
    then show ?thesis using tree_leaf_from [OF t nV cV adj only] by simp
  next
    case vv
    from t vv obtain q where q: "spath V a b q" and uq: "\<And>q'. spath V a b q' \<Longrightarrow> q' = q"
      unfolding tree_def by blast
    show ?thesis
    proof (rule ex1I [of _ q])
      show "spath (insert n V) a b q" using q by (rule spath_mono) auto
    next
      fix p assume p: "spath (insert n V) a b p"
      have "n \<notin> set p" using spath_avoids_leaf [OF p vv(3,4) nV only] .
      then show "p = q" using spath_restrict [OF p] uq by blast
    qed
  qed
qed

lemma tree_single: "tree {a}"
proof -
  have "spath {a} a a [a]" by (simp add: spath_def)
  then show ?thesis unfolding tree_def using spath_same by blast
qed

section \<open>Invariants of the carving loop\<close>

text \<open>
  A carve step, on the set of path cells: the midpoint and the chosen cell are new,
  the midpoint hangs on the current cell and the chosen cell on the midpoint.
\<close>

lemma adjacent_iff:
  "adjacent (a, b) (c, d) \<longleftrightarrow>
     (a = c \<and> (d = b + 1 \<or> d = b - 1)) \<or> (b = d \<and> (c = a + 1 \<or> c = a - 1))"
  by (auto simp: adjacent_def)

lemma carve_shape:
  assumes sh: "maze_shape sz P" and t: "tree P"
    and c: "(x, y) \<in> P" "odd x" "odd y"
    and cand: "(nx, ny) \<in> set (candidates x y)"
    and rng: "0 < nx" "nx < sz - 1" "0 < ny" "ny < sz - 1"
    and w: "(nx, ny) \<notin> P"
  defines "mx \<equiv> (x + nx) div 2" and "my \<equiv> (y + ny) div 2"
  shows "(mx, my) \<notin> P \<and> (mx, my) \<noteq> (nx, ny) \<and> 0 \<le> mx \<and> mx < sz \<and> 0 \<le> my \<and> my < sz \<and>
         odd nx \<and> odd ny \<and>
         maze_shape sz (insert (nx, ny) (insert (mx, my) P)) \<and>
         tree (insert (nx, ny) (insert (mx, my) P))"
proof -
  have in_rng: "\<And>i j. (i, j) \<in> P \<Longrightarrow> 0 < i \<and> i < sz - 1 \<and> 0 < j \<and> j < sz - 1 \<and> (odd i \<or> odd j)"
    and closed: "\<And>i j c. odd i \<Longrightarrow> odd j \<Longrightarrow> (i, j) \<notin> P \<Longrightarrow> adjacent (i, j) c \<Longrightarrow> c \<notin> P"
    and start: "(1, 1) \<in> P"
    using sh unfolding maze_shape_def by blast+
  have odd_n: "odd nx" "odd ny" using cand c(2,3) unfolding candidates_mem by auto
  have cxy: "0 < x" "x < sz - 1" "0 < y" "y < sz - 1" using in_rng [OF c(1)] by auto
  have adj_nm: "adjacent (nx, ny) (mx, my)" and adj_cm: "adjacent (x, y) (mx, my)"
    and m_par: "(even mx \<and> odd my) \<or> (odd mx \<and> even my)"
    using cand c(2,3) unfolding candidates_mem adjacent_iff mx_def my_def by auto
  have m_rng: "0 < mx" "mx < sz - 1" "0 < my" "my < sz - 1"
    using cand rng cxy unfolding candidates_mem mx_def my_def by auto
  have m_new: "(mx, my) \<notin> P" using closed [OF odd_n w adj_nm] .
  have m_ne: "(mx, my) \<noteq> (nx, ny)" using m_par odd_n by auto
  have only1: "\<forall>v\<in>P. adjacent v (mx, my) \<longrightarrow> v = (x, y)"
  proof (intro ballI impI)
    fix v assume v: "v \<in> P" and a: "adjacent v (mx, my)"
    obtain i j where ij: "v = (i, j)" by (cases v)
    have "odd i \<or> odd j" using in_rng v ij by blast
    moreover have "(i, j) \<noteq> (nx, ny)" using v w ij by auto
    ultimately show "v = (x, y)"
      using a cand c(2,3) unfolding ij candidates_mem adjacent_iff mx_def my_def
      by auto
  qed
  have t1: "tree (insert (mx, my) P)"
    using tree_leaf [OF t m_new c(1) adj_cm only1] .
  have only2: "\<forall>v\<in>insert (mx, my) P. adjacent v (nx, ny) \<longrightarrow> v = (mx, my)"
    using closed [OF odd_n w] adjacent_sym by blast
  have n_new: "(nx, ny) \<notin> insert (mx, my) P" using w m_ne by auto
  have t2: "tree (insert (nx, ny) (insert (mx, my) P))"
    using tree_leaf [OF t1 n_new _ adjacent_sym [OF adj_nm] only2] by simp
  have odd_nb: "\<And>i j. odd i \<Longrightarrow> odd j \<Longrightarrow> adjacent (i, j) (mx, my) \<Longrightarrow>
                  (i, j) = (x, y) \<or> (i, j) = (nx, ny)"
    using cand c(2,3) unfolding candidates_mem adjacent_iff mx_def my_def
    by auto
  let ?P2 = "insert (nx, ny) (insert (mx, my) P)"
  have p2: "\<forall>i j. (i, j) \<in> ?P2 \<longrightarrow>
              0 < i \<and> i < sz - 1 \<and> 0 < j \<and> j < sz - 1 \<and> (odd i \<or> odd j)"
  proof (intro allI impI)
    fix i j assume "(i, j) \<in> ?P2"
    then consider "i = nx \<and> j = ny" | "i = mx \<and> j = my" | "(i, j) \<in> P" by auto
    then show "0 < i \<and> i < sz - 1 \<and> 0 < j \<and> j < sz - 1 \<and> (odd i \<or> odd j)"
    proof cases
      case 1
      then show ?thesis using rng odd_n by simp
    next
      case 2
      then show ?thesis using m_rng m_par by auto
    next
      case 3
      then show ?thesis by (rule in_rng)
    qed
  qed
  have p3: "\<forall>i j c. odd i \<and> odd j \<and> (i, j) \<notin> ?P2 \<and> adjacent (i, j) c \<longrightarrow> c \<notin> ?P2"
  proof (intro allI impI)
    fix i j c'
    assume h: "odd i \<and> odd j \<and> (i, j) \<notin> ?P2 \<and> adjacent (i, j) c'"
    then have oi: "odd i" and oj: "odd j" and nP: "(i, j) \<notin> P"
      and ne: "(i, j) \<noteq> (nx, ny)" "(i, j) \<noteq> (x, y)" and a: "adjacent (i, j) c'"
      using c(1) by auto
    have "c' \<notin> P" using closed [OF oi oj nP a] .
    moreover have "c' \<noteq> (mx, my)" using odd_nb [OF oi oj] a ne by blast
    moreover have "c' \<noteq> (nx, ny)"
    proof
      assume "c' = (nx, ny)"
      then have "adjacent (i, j) (nx, ny)" using a by simp
      then show False using oi oj odd_n unfolding adjacent_iff by presburger
    qed
    ultimately show "c' \<notin> ?P2" by simp
  qed
  have sh2: "maze_shape sz ?P2"
    unfolding maze_shape_def
    by (intro conjI) (use start in simp, rule p2, rule p3)
  show ?thesis
    using m_new m_ne m_rng odd_n sh2 t2 by simp
qed

text \<open>Reading and writing cells of a square array.\<close>

lemma get2_cell_at:
  "0 \<le> i \<Longrightarrow> 0 \<le> j \<Longrightarrow>
   get2 g i j = (case cell_at g (i, j) of None \<Rightarrow> Inl IndexError | Some v \<Rightarrow> Inr v)"
  by (simp add: get2_def cell_at_def norm_index_nonneg)

lemma cell_at_square:
  "square_grid n g \<Longrightarrow>
   cell_at g (i, j) =
     (if 0 \<le> i \<and> i < int n \<and> 0 \<le> j \<and> j < int n then Some (g ! nat i ! nat j) else None)"
  using square_grid_row [of n g "nat i"]
  by (auto simp: cell_at_def square_grid_def)

lemma path_count_update:
  assumes "r < length g" "c < length (g ! r)"
  shows "path_count (g[r := (g ! r)[c := 0]]) =
         path_count g + (if g ! r ! c = 0 then 0 else 1)"
proof -
  let ?f = "\<lambda>row. length (filter (\<lambda>v. v = (0::int)) row)"
  have a: "?f ((g ! r)[c := 0]) = ?f (g ! r) + (if g ! r ! c = 0 then 0 else 1)"
    using filter_update_count [OF assms(2), of "\<lambda>v. v = 0" 0] by (simp split: if_splits)
  have b: "sum_list ((map ?f g)[r := ?f ((g ! r)[c := 0])]) =
           sum_list (map ?f g) + ?f ((g ! r)[c := 0]) - (map ?f g) ! r"
    using assms(1) by (simp add: sum_list_update)
  have c: "(map ?f g) ! r \<le> sum_list (map ?f g)"
    using assms(1) by (simp add: member_le_sum_list)
  show ?thesis
    unfolding path_count_def map_update using a b c assms(1) by (simp split: if_splits)
qed

lemma set2_square:
  assumes sq: "square_grid n g" and r: "0 \<le> i" "i < int n" "0 \<le> j" "j < int n"
  shows "\<exists>g'. set2 g i j v = Inr g' \<and> square_grid n g' \<and>
              (\<forall>c. cell_at g' c = (if c = (i, j) then Some v else cell_at g c)) \<and>
              (binary g \<and> (v = 0 \<or> v = 1) \<longrightarrow> binary g') \<and>
              (v = 0 \<longrightarrow> path_count g' = path_count g + (if (i, j) \<in> paths g then 0 else 1))"
proof -
  define g' where "g' = g[nat i := (g ! nat i)[nat j := v]]"
  have len: "length g = n" using sq by (simp add: square_grid_def)
  have row: "length (g ! nat i) = n" using square_grid_row [OF sq, of "nat i"] r by simp
  have s: "set2 g i j v = Inr g'"
    using r len row by (simp add: set2_def norm_index_nonneg g'_def)
  have sq': "square_grid n g'"
    using sq r unfolding square_grid_def g'_def list_all_length
    by (auto simp: nth_list_update)
  have c: "\<forall>c. cell_at g' c = (if c = (i, j) then Some v else cell_at g c)"
  proof
    fix c :: cell
    obtain a b where ab: "c = (a, b)" by (cases c)
    show "cell_at g' c = (if c = (i, j) then Some v else cell_at g c)"
      unfolding ab cell_at_square [OF sq] cell_at_square [OF sq']
      using r len row by (auto simp: g'_def nth_list_update nat_eq_iff)
  qed
  have b: "binary g \<and> (v = 0 \<or> v = 1) \<longrightarrow> binary g'"
  proof
    assume h: "binary g \<and> (v = 0 \<or> v = 1)"
    then have old: "\<And>a b. a < length g \<Longrightarrow> b < length (g ! a) \<Longrightarrow> g ! a ! b = 0 \<or> g ! a ! b = 1"
      unfolding binary_def list_all_length by blast
    have "g' ! a ! b = 0 \<or> g' ! a ! b = 1" if a: "a < length g'" and b: "b < length (g' ! a)" for a b
    proof (cases "a = nat i")
      case True
      then show ?thesis
        using a b h old [of a b] unfolding g'_def
        by (cases "b = nat j") (auto simp: nth_list_update)
    next
      case False
      then show ?thesis using a b old [of a b] unfolding g'_def by (auto simp: nth_list_update)
    qed
    then show "binary g'" unfolding binary_def list_all_length by blast
  qed
  have n: "v = 0 \<longrightarrow> path_count g' = path_count g + (if (i, j) \<in> paths g then 0 else 1)"
  proof
    assume v: "v = 0"
    have "(i, j) \<in> paths g \<longleftrightarrow> g ! nat i ! nat j = 0"
      using r by (simp add: paths_def is_path_def cell_at_square [OF sq])
    then show "path_count g' = path_count g + (if (i, j) \<in> paths g then 0 else 1)"
      using path_count_update [of "nat i" g "nat j"] r len row unfolding g'_def v
      by (simp split: if_splits)
  qed
  show ?thesis using s sq' c b n by blast
qed

lemma paths_set2:
  assumes "\<forall>c. cell_at g' c = (if c = (i, j) then Some 0 else cell_at g c)"
  shows "paths g' = insert (i, j) (paths g)"
proof -
  have "is_path g' c \<longleftrightarrow> c = (i, j) \<or> is_path g c" for c
    unfolding is_path_def using assms [rule_format, of c] by simp
  then show ?thesis unfolding paths_def by blast
qed

lemma finite_paths: "square_grid n g \<Longrightarrow> finite (paths g)"
proof -
  assume sq: "square_grid n g"
  have "paths g \<subseteq> {0..<int n} \<times> {0..<int n}"
    by (auto simp: paths_def is_path_def cell_at_square [OF sq] split: if_splits)
  then show ?thesis by (rule finite_subset) simp
qed

lemma filter_neighbors_ok:
  assumes sq: "square_grid (nat sz) m"
  shows "\<exists>r. filter_neighbors sz m cs = Inr r"
proof (induction cs)
  case Nil
  then show ?case by simp
next
  case (Cons c cs)
  obtain a b where c: "c = (a, b)" by (cases c)
  from Cons obtain r where r: "filter_neighbors sz m cs = Inr r" by blast
  show ?case
    unfolding c using r
    by (auto simp: get2_cell_at cell_at_square [OF sq])
qed

text \<open>The body of the loop keeps the invariant and never raises under it.\<close>

lemma carve_step_inv:
  assumes inv: "gen_inv sz s" and ne: "stack s \<noteq> []"
  shows "\<exists>s'. carve_step sz rng s = Inr s' \<and> gen_inv sz s'"
proof -
  let ?P = "paths (maze s)"
  have sq: "square_grid (nat sz) (maze s)" and bin: "binary (maze s)"
    and start: "(1, 1) \<in> ?P" and ps: "\<forall>i j. (i, j) \<in> ?P \<longrightarrow> 0 < i \<and> 0 < j" and sh: "3 \<le> sz \<longrightarrow> maze_shape sz ?P"
    and st: "\<And>x y. (x, y) \<in> set (stack s) \<Longrightarrow> odd x \<and> odd y \<and> (x, y) \<in> ?P"
    and t: "tree ?P" and cd: "path_count (maze s) = 2 * draws s + 1"
    using inv unfolding gen_inv_def by blast+
  obtain x y where xy: "last (stack s) = (x, y)" by (cases "last (stack s)")
  have "(x, y) \<in> set (stack s)" using ne xy last_in_set by metis
  then have c: "(x, y) \<in> ?P" "odd x" "odd y" using st by auto
  obtain nbs where nbs: "filter_neighbors sz (maze s) (candidates x y) = Inr nbs"
    using filter_neighbors_ok [OF sq] by blast
  show ?thesis
  proof (cases "nbs = []")
    case True
    then have s': "carve_step sz rng s = Inr (s\<lparr>stack := butlast (stack s)\<rparr>)"
      using xy nbs by (simp add: carve_step_def)
    have "gen_inv sz (s\<lparr>stack := butlast (stack s)\<rparr>)"
      using inv unfolding gen_inv_def by (auto dest: in_set_butlastD)
    then show ?thesis using s' by blast
  next
    case False
    obtain nx ny where n: "nbs ! (rng (draws s) mod length nbs) = (nx, ny)"
      by (cases "nbs ! (rng (draws s) mod length nbs)")
    have "(nx, ny) \<in> set nbs"
      using False n by (metis length_greater_0_conv mod_less_divisor nth_mem)
    from filter_neighbors_mem [OF nbs this]
    have cand: "(nx, ny) \<in> set (candidates x y)"
      and rg: "0 < nx" "nx < sz - 1" "0 < ny" "ny < sz - 1"
      and wall: "get2 (maze s) nx ny = Inr 1" by auto
    have sz3: "3 \<le> sz" using rg by simp
    have w: "(nx, ny) \<notin> ?P"
      using wall rg by (auto simp: get2_cell_at paths_def is_path_def split: option.splits)
    define mx where "mx = (x + nx) div 2"
    define my where "my = (y + ny) div 2"
    from carve_shape [OF sh [rule_format, OF sz3] t c cand rg w]
    have m_new: "(mx, my) \<notin> ?P" and m_ne: "(mx, my) \<noteq> (nx, ny)"
      and m_rng: "0 \<le> mx" "mx < sz" "0 \<le> my" "my < sz"
      and odd_n: "odd nx" "odd ny"
      and sh2: "maze_shape sz (insert (nx, ny) (insert (mx, my) ?P))"
      and t2: "tree (insert (nx, ny) (insert (mx, my) ?P))"
      unfolding mx_def my_def by blast+
    have mr: "mx < int (nat sz)" "my < int (nat sz)" using m_rng by auto
    from set2_square [OF sq m_rng(1) mr(1) m_rng(3) mr(2), of 0] bin
    obtain g1 where g1: "set2 (maze s) mx my 0 = Inr g1" and sq1: "square_grid (nat sz) g1"
      and c1: "\<forall>c. cell_at g1 c = (if c = (mx, my) then Some 0 else cell_at (maze s) c)"
      and b1: "binary g1"
      and n1: "path_count g1 = path_count (maze s) + (if (mx, my) \<in> ?P then 0 else 1)" by auto
    have nr: "0 \<le> nx" "nx < int (nat sz)" "0 \<le> ny" "ny < int (nat sz)" using rg by auto
    from set2_square [OF sq1 nr, of 0] b1
    obtain g2 where g2: "set2 g1 nx ny 0 = Inr g2" and sq2: "square_grid (nat sz) g2"
      and c2: "\<forall>c. cell_at g2 c = (if c = (nx, ny) then Some 0 else cell_at g1 c)"
      and b2: "binary g2"
      and n2: "path_count g2 = path_count g1 + (if (nx, ny) \<in> paths g1 then 0 else 1)" by auto
    have P2: "paths g2 = insert (nx, ny) (insert (mx, my) ?P)"
      using paths_set2 [OF c2] paths_set2 [OF c1] by simp
    define s' where "s' = \<lparr>maze = g2, stack = stack s @ [(nx, ny)], draws = Suc (draws s)\<rparr>"
    have step: "carve_step sz rng s = Inr s'"
      using xy nbs False n g1 g2 unfolding mx_def my_def
      by (simp add: carve_step_def s'_def)
    have "(nx, ny) \<notin> paths g1" using paths_set2 [OF c1] w m_ne by auto
    then have card2: "path_count g2 = 2 * Suc (draws s) + 1"
      using n1 n2 m_new cd by simp
    have stk: "\<And>a b. (a, b) \<in> set (stack s @ [(nx, ny)]) \<Longrightarrow>
                 odd a \<and> odd b \<and> (a, b) \<in> paths g2"
      unfolding P2 using st odd_n by auto
    have ps2: "\<forall>i j. (i, j) \<in> paths g2 \<longrightarrow> 0 < i \<and> 0 < j"
      using sh2 unfolding P2 maze_shape_def by blast
    have "gen_inv sz s'"
      unfolding gen_inv_def s'_def
      using sq2 b2 start sh2 t2 card2 stk P2 ps2 by simp
    then show ?thesis using step by blast
  qed
qed

lemma carve_loop_inv:
  "gen_inv sz s \<Longrightarrow> \<exists>s'. carve_loop sz rng s = Inr s' \<and> gen_inv sz s' \<and> stack s' = []"
proof (induction sz rng s rule: carve_loop.induct)
  case (1 sz rng s)
  show ?case
  proof (cases "stack s = []")
    case True
    then show ?thesis using "1.prems" by (simp add: carve_loop.simps)
  next
    case False
    from carve_step_inv [OF "1.prems" False]
    obtain s1 where s1: "carve_step sz rng s = Inr s1" and i1: "gen_inv sz s1" by blast
    from "1.IH" [OF False s1 i1] show ?thesis
      using False s1 by (simp add: carve_loop.simps [of sz rng s])
  qed
qed

text \<open>The invariant holds at the start of the loop, hence at its end.\<close>

lemma replicate_grid:
  "square_grid n (replicate n (replicate n 1)) \<and> binary (replicate n (replicate n 1)) \<and>
   paths (replicate n (replicate n 1)) = {} \<and> path_count (replicate n (replicate n 1)) = 0"
proof -
  let ?g = "replicate n (replicate n (1::int))"
  have sq: "square_grid n ?g" by (simp add: square_grid_def list_all_length)
  have "paths ?g = {}"
    by (auto simp: paths_def is_path_def cell_at_square [OF sq] split: if_splits)
  moreover have "binary ?g" by (simp add: binary_def list_all_length)
  moreover have "path_count ?g = 0" by (simp add: path_count_def sum_list_replicate)
  ultimately show ?thesis using sq by simp
qed

lemma maze_shape_start: "3 \<le> sz \<Longrightarrow> maze_shape sz {(1, 1)}"
  by (auto simp: maze_shape_def adjacent_iff)

lemma np_ones_allocates:
  "allocates mem sz \<Longrightarrow> np_ones mem sz = Inr (replicate (nat sz) (replicate (nat sz) 1))"
  by (simp add: np_ones_def allocates_def)

lemma np_ones_fails:
  "\<not> allocates mem sz \<Longrightarrow>
   np_ones mem sz =
     Inl (if sz < 0 \<or> 2 ^ 63 \<le> 8 * sz * sz then ValueError else MemoryError)"
  by (auto simp: np_ones_def allocates_def)


lemma initial_state_inv:
  assumes "2 \<le> sz" and al: "allocates mem sz"
  shows "\<exists>s0. initial_state mem sz = Inr s0 \<and> gen_inv sz s0"
proof -
  let ?g = "replicate (nat sz) (replicate (nat sz) (1::int))"
  have r: "(0::int) \<le> 1" "1 < int (nat sz)" using assms by auto
  from set2_square [OF replicate_grid [THEN conjunct1] r r, of 0] replicate_grid [of "nat sz"]
  obtain g where g: "set2 ?g 1 1 0 = Inr g" and sq: "square_grid (nat sz) g"
    and c: "\<forall>c. cell_at g c = (if c = (1, 1) then Some 0 else cell_at ?g c)"
    and b: "binary g" and n: "path_count g = 1" by auto
  have P: "paths g = {(1, 1)}" using paths_set2 [OF c] replicate_grid [of "nat sz"] by simp
  define s0 where "s0 = \<lparr>maze = g, stack = [(1, 1)], draws = 0\<rparr>"
  have "initial_state mem sz = Inr s0"
    using g by (simp add: initial_state_def np_ones_allocates [OF al] s0_def)
  moreover have "gen_inv sz s0"
    unfolding gen_inv_def s0_def using sq b n P maze_shape_start tree_single by simp
  ultimately show ?thesis by blast
qed

lemma initial_state_error:
  "\<not> (2 \<le> sz \<and> allocates mem sz) \<Longrightarrow>
   initial_state mem sz =
     Inl (if sz < 0 \<or> 2 ^ 63 \<le> 8 * sz * sz then ValueError
          else if mem < 8 * sz * sz then MemoryError else IndexError)"
proof (cases "allocates mem sz")
  case True
  assume "\<not> (2 \<le> sz \<and> allocates mem sz)"
  then have "sz < 2" using True by simp
  then show ?thesis
    using True
    by (auto simp: initial_state_def np_ones_allocates [OF True] set2_def norm_index_def
        allocates_def)
next
  case False
  then show ?thesis
    by (auto simp: initial_state_def np_ones_fails [OF False] allocates_def)
qed

lemma generate_state_inv:
  assumes "2 \<le> sz" and al: "allocates mem sz"
  shows "\<exists>s. generate_state mem sz rng = Inr s \<and> gen_inv sz s \<and> stack s = []"
proof -
  from initial_state_inv [OF assms]
  obtain s0 where s0: "initial_state mem sz = Inr s0" and i0: "gen_inv sz s0" by blast
  from carve_loop_inv [OF i0, of rng] show ?thesis
    using s0 by (simp add: generate_state_def)
qed



lemma generate_state_5:
  "generate_state mem_sample 5 rng_first = Inr \<lparr>maze = grid5, stack = [], draws = 3\<rparr>"
  unfolding grid5_def by code_simp

lemma generate_maze_5: "generate_maze mem_sample 5 rng_first = Inr grid5"
  by (simp add: generate_maze_def generate_state_5)


lemma simple_path_spath: "simple_path g a b p = spath (paths g) a b p"
  by (auto simp: simple_path_def spath_def paths_def list_all_iff)

lemma tree_no_cycle:
  assumes t: "tree (paths g)"
  shows "\<not> cycle g p"
proof
  assume c: "cycle g p"
  then have len: "3 \<le> length p" and d: "distinct p" and sub: "set p \<subseteq> paths g"
    and suc: "successively adjacent p" and cl: "adjacent (last p) (hd p)"
    by (auto simp: cycle_def paths_def list_all_iff)
  have ne: "p \<noteq> []" using len by auto
  then have h: "hd p \<in> paths g" and l: "last p \<in> paths g" using sub by auto
  have hl: "hd p \<noteq> last p"
  proof -
    obtain x q where p: "p = x # q" using ne by (cases p) auto
    then have "q \<noteq> []" using len by auto
    then have "last p \<in> set q" using p by auto
    then show ?thesis using d p by auto
  qed
  have p1: "spath (paths g) (hd p) (last p) p"
    using ne d sub suc by (simp add: spath_def)
  have p2: "spath (paths g) (hd p) (last p) [hd p, last p]"
    using hl h l cl by (simp add: spath_def adjacent_sym)
  have "p = [hd p, last p]"
    using t h l p1 p2 unfolding tree_def by blast
  then have "length p = 2" by (metis length_Cons list.size(3) numeral_2_eq_2)
  then show False using len by simp
qed

text \<open>The two scanning loops compute a search in the scan order.\<close>

lemma rev_upto_Suc: "rev [1..int (Suc k)] = int (Suc k) # rev [1..int k]"
  using upto_rec2 [of 1 "int (Suc k)"] by simp

lemma find_append_case:
  "List.find P (xs @ ys) = (case List.find P xs of None \<Rightarrow> List.find P ys | Some x \<Rightarrow> Some x)"
  by (induction xs) auto

lemma scan_row_find:
  assumes sq: "square_grid n g" and x: "0 \<le> x" "x < int n"
  shows "k < n \<Longrightarrow>
         scan_row g x k = Inr (List.find (is_path g) (map (\<lambda>z. (x, z)) (rev [1..int k])))"
proof (induction k)
  case 0
  then show ?case by simp
next
  case (Suc k)
  have n: "nat (int (Suc k)) = Suc k" by (rule nat_int)
  have r: "0 \<le> int (Suc k)" "int (Suc k) < int n" using Suc.prems by simp_all
  have "get2 g x (int (Suc k)) = Inr (g ! nat x ! Suc k)"
    using x r n by (simp only: get2_cell_at cell_at_square [OF sq] if_True simp_thms option.case)
  moreover have "is_path g (x, int (Suc k)) \<longleftrightarrow> g ! nat x ! Suc k = 0"
    using x r n by (simp only: is_path_def cell_at_square [OF sq] if_True simp_thms option.inject)
  ultimately show ?case
    using Suc unfolding rev_upto_Suc by simp
qed

lemma scan_rows_find:
  assumes sq: "square_grid n g" and m: "m < n"
  shows "k < n \<Longrightarrow>
         scan_rows g m k =
           Inr (List.find (is_path g)
                  (concat (map (\<lambda>x. map (\<lambda>z. (x, z)) (rev [1..int m])) (rev [1..int k]))))"
proof (induction k)
  case 0
  then show ?case by simp
next
  case (Suc k)
  have "scan_row g (int (Suc k)) m =
          Inr (List.find (is_path g) (map (\<lambda>z. (int (Suc k), z)) (rev [1..int m])))"
    using scan_row_find [OF sq _ _ m, of "int (Suc k)"] Suc.prems by simp
  then show ?case
    using Suc unfolding rev_upto_Suc
    by (simp add: find_append_case split: option.splits)
qed

section \<open>The collision test on a generated grid\<close>
















section \<open>Containment of the collision square\<close>

text \<open>
  The cells that the exact square meets, against the cells of the corners that the
  program computes: each computed corner is within \<open>n / 2 ^ 52\<close> of the exact one at
  a position inside a grid of size \<open>n\<close>.
\<close>

lemma set_cell_product:
  "(i, j) \<in> set (concat (map (\<lambda>a. map (\<lambda>b. (a, b)) ys) xs)) \<longleftrightarrow> i \<in> set xs \<and> j \<in> set ys"
  by (induction xs) auto

lemma overlap_cells_iff:
  "(i, j) \<in> set (overlap_cells R x z) \<longleftrightarrow>
   \<lfloor>x - R\<rfloor> \<le> i \<and> i \<le> \<lfloor>x + R\<rfloor> \<and> \<lfloor>z - R\<rfloor> \<le> j \<and> j \<le> \<lfloor>z + R\<rfloor>"
  unfolding overlap_cells_def set_cell_product by auto

lemma wall_free_mono:
  assumes "R' \<le> R" "wall_free g R x z"
  shows "wall_free g R' x z"
proof -
  have "is_path g (i, j)" if c: "(i, j) \<in> set (overlap_cells R' x z)" for i j
  proof -
    have "\<lfloor>x - R\<rfloor> \<le> \<lfloor>x - R'\<rfloor>" "\<lfloor>x + R'\<rfloor> \<le> \<lfloor>x + R\<rfloor>"
      "\<lfloor>z - R\<rfloor> \<le> \<lfloor>z - R'\<rfloor>" "\<lfloor>z + R'\<rfloor> \<le> \<lfloor>z + R\<rfloor>"
      using assms(1) by (auto intro!: floor_mono)
    then have "(i, j) \<in> set (overlap_cells R x z)"
      using c unfolding overlap_cells_iff by linarith
    then show ?thesis using assms(2) unfolding wall_free_def list_all_iff by blast
  qed
  then show ?thesis unfolding wall_free_def list_all_iff by auto
qed

lemma wall_free_centre:
  assumes "0 \<le> R" "wall_free g R x z"
  shows "is_path g (\<lfloor>x\<rfloor>, \<lfloor>z\<rfloor>)"
proof -
  have "\<lfloor>x - R\<rfloor> \<le> \<lfloor>x\<rfloor>" "\<lfloor>x\<rfloor> \<le> \<lfloor>x + R\<rfloor>" "\<lfloor>z - R\<rfloor> \<le> \<lfloor>z\<rfloor>" "\<lfloor>z\<rfloor> \<le> \<lfloor>z + R\<rfloor>"
    using assms(1) by (auto intro!: floor_mono)
  then have "(\<lfloor>x\<rfloor>, \<lfloor>z\<rfloor>) \<in> set (overlap_cells R x z)"
    unfolding overlap_cells_iff by simp
  then show ?thesis using assms(2) unfolding wall_free_def list_all_iff by blast
qed

lemma path_in_range:
  assumes sq: "square_grid n g"
    and pos: "\<forall>i j. (i, j) \<in> paths g \<longrightarrow> 0 < i \<and> 0 < j"
    and p: "is_path g (\<lfloor>x\<rfloor>, \<lfloor>z\<rfloor>)"
  shows "1 \<le> x \<and> x < real n \<and> 1 \<le> z \<and> z < real n"
proof -
  have "0 < \<lfloor>x\<rfloor>" "0 < \<lfloor>z\<rfloor>" using pos p unfolding paths_def by force+
  then have a: "1 \<le> x" "1 \<le> z" by (simp_all add: less_floor_iff) 
  have "\<lfloor>x\<rfloor> < int n" "\<lfloor>z\<rfloor> < int n"
    using p by (auto simp: is_path_def cell_at_square [OF sq] split: if_splits)
  then have "\<lfloor>x\<rfloor> + 1 \<le> int n" "\<lfloor>z\<rfloor> + 1 \<le> int n" by simp_all
  then have "real_of_int (\<lfloor>x\<rfloor> + 1) \<le> real_of_int (int n)"
    "real_of_int (\<lfloor>z\<rfloor> + 1) \<le> real_of_int (int n)"
    by (simp_all only: of_int_le_iff)
  then have "x < real n" "z < real n" by (simp_all, linarith+)
  then show ?thesis using a by simp
qed

lemma fadd_error:
  assumes "1 \<le> x" "x < real n" "\<bar>d\<bar> \<le> 1 / 2"
  shows "\<bar>fadd x d - (x + d)\<bar> \<le> real n / 2 ^ 52"
proof -
  define v where "v = x + d"
  have v: "\<bar>v\<bar> \<le> real n + 1 / 2" using assms by (simp add: v_def abs_le_iff)
  have n: "1 \<le> real n" using assms by linarith
  have "(2::real) powi (- 1075) \<le> 2 powi (- 54)"
    by (rule power_int_increasing) simp_all
  also have "\<dots> = 1 / 2 ^ 54" by (simp add: power_int_def power_divide)
  finally have t: "(2::real) powi (- 1075) \<le> 1 / 2 ^ 54" .
  have "\<bar>v\<bar> / 2 ^ 53 \<le> (real n + 1 / 2) / 2 ^ 53"
    using v by (intro divide_right_mono) simp_all
  then have "\<bar>fl v - v\<bar> \<le> (real n + 1 / 2) / 2 ^ 53 + 1 / 2 ^ 54"
    using fl_error [of v] t by linarith
  also have "\<dots> \<le> real n / 2 ^ 52" using n by (simp add: field_simps)
  finally show ?thesis by (simp add: fadd_def v_def)
qed

lemma free_wall_free:
  assumes sq: "square_grid n g"
    and pos: "\<forall>i j. (i, j) \<in> paths g \<longrightarrow> 0 < i \<and> 0 < j"
    and R: "0 \<le> R" "R + real n / 2 ^ 52 \<le> 1 / 2"
    and f: "free_for_disc g R x z"
  shows "wall_free g (R - real n / 2 ^ 52) x z"
proof -
  define e where "e = real n / 2 ^ 52"
  have e0: "0 \<le> e" by (simp add: e_def)
  have Rd: "\<bar>R\<bar> \<le> 1 / 2" "\<bar>- R\<bar> \<le> 1 / 2" using R e0 unfolding e_def by simp_all
  have c: "is_path g (\<lfloor>x\<rfloor>, \<lfloor>z\<rfloor>)"
    using f by (simp add: free_for_disc_def disc_cells_def)
  from path_in_range [OF sq pos c]
  have x: "1 \<le> x" "x < real n" and z: "1 \<le> z" "z < real n" by simp_all
  have two: "k = \<lfloor>fadd c (- R)\<rfloor> \<or> k = \<lfloor>fadd c R\<rfloor>"
    if c: "1 \<le> c" "c < real n" and k: "\<lfloor>c - (R - e)\<rfloor> \<le> k" "k \<le> \<lfloor>c + (R - e)\<rfloor>"
    for c :: real and k :: int
  proof -
    have a: "\<bar>fadd c (- R) - (c + - R)\<bar> \<le> e" and b: "\<bar>fadd c R - (c + R)\<bar> \<le> e"
      unfolding e_def using fadd_error [OF c Rd(2)] fadd_error [OF c Rd(1)] by simp_all
    have "fadd c (- R) \<le> c - (R - e)" "c + (R - e) \<le> fadd c R"
      using a b by linarith+
    then have l: "\<lfloor>fadd c (- R)\<rfloor> \<le> \<lfloor>c - (R - e)\<rfloor>" "\<lfloor>c + (R - e)\<rfloor> \<le> \<lfloor>fadd c R\<rfloor>"
      by (auto intro!: floor_mono)
    have "fadd c R \<le> fadd c (- R) + 1" using a b R(2) unfolding e_def by linarith
    then have "\<lfloor>fadd c R\<rfloor> \<le> \<lfloor>fadd c (- R) + 1\<rfloor>" by (rule floor_mono)
    then have "\<lfloor>fadd c R\<rfloor> \<le> \<lfloor>fadd c (- R)\<rfloor> + 1" by simp
    then show ?thesis using l k by linarith
  qed
  have "is_path g (i, j)" if "(i, j) \<in> set (overlap_cells (R - e) x z)" for i j
  proof -
    have r: "\<lfloor>x - (R - e)\<rfloor> \<le> i" "i \<le> \<lfloor>x + (R - e)\<rfloor>"
      "\<lfloor>z - (R - e)\<rfloor> \<le> j" "j \<le> \<lfloor>z + (R - e)\<rfloor>"
      using that unfolding overlap_cells_iff by auto
    have i: "i = \<lfloor>fadd x (- R)\<rfloor> \<or> i = \<lfloor>fadd x R\<rfloor>" using two [OF x r(1,2)] .
    have j: "j = \<lfloor>fadd z (- R)\<rfloor> \<or> j = \<lfloor>fadd z R\<rfloor>" using two [OF z r(3,4)] .
    from i j show ?thesis
      using f unfolding free_for_disc_def disc_cells_def by auto
  qed
  then show ?thesis unfolding wall_free_def list_all_iff e_def by auto
qed

text \<open>
  A call of \<^verbatim>\<open>move\<close> that returns leaves the position where it was, or at one that
  a call of \<^verbatim>\<open>can_move\<close> has accepted.
\<close>

lemma move_r_accepted:
  assumes m: "move_r R g cam dx dz = Inr cam'"
  shows "(cam_x cam', cam_z cam') = (cam_x cam, cam_z cam) \<or>
         can_move_r R g (cam_x cam') (cam_z cam') = Inr True"
proof -
  obtain b1 where b1: "can_move_r R g (fadd (cam_x cam) dx) (cam_z cam) = Inr b1"
    using m by (auto simp: move_r_def Let_def split: sum.splits)
  define cam1 where "cam1 = (if b1 then cam\<lparr>cam_x := fadd (cam_x cam) dx\<rparr> else cam)"
  have w1: "(cam_x cam1, cam_z cam1) = (cam_x cam, cam_z cam) \<or>
            can_move_r R g (cam_x cam1) (cam_z cam1) = Inr True"
    using b1 by (cases b1) (simp_all add: cam1_def)
  obtain b2 where b2: "can_move_r R g (cam_x cam1) (fadd (cam_z cam) dz) = Inr b2"
    and c': "cam' = (if b2 then cam1\<lparr>cam_z := fadd (cam_z cam) dz\<rparr> else cam1)"
    using m b1 by (auto simp: move_r_def Let_def cam1_def split: sum.splits)
  show ?thesis
    using w1 b2 unfolding c' by (cases b2) simp_all
qed

lemma moves_r_accepted:
  "moves_r R g cam ds = Inr cam' \<Longrightarrow>
   (cam_x cam', cam_z cam') = (cam_x cam, cam_z cam) \<or>
   can_move_r R g (cam_x cam') (cam_z cam') = Inr True"
proof (induction ds arbitrary: cam)
  case Nil
  then show ?case by simp
next
  case (Cons d ds)
  obtain dx dz where d: "d = (dx, dz)" by (cases d)
  from Cons.prems obtain cam1 where m: "move_r R g cam dx dz = Inr cam1"
    and r: "moves_r R g cam1 ds = Inr cam'"
    unfolding d by (auto split: sum.splits)
  from move_r_accepted [OF m] Cons.IH [OF r] show ?case by auto
qed

text \<open>
  The sum of a position inside the grid and a finite double is finite, so that the
  conversions of \<^verbatim>\<open>can_move\<close> do not overflow.
\<close>

lemma expo_le_1023:
  assumes "v \<noteq> 0" "\<bar>v\<bar> < 2 ^ 1024"
  shows "expo v \<le> 1023"
proof (rule ccontr)
  assume "\<not> expo v \<le> 1023"
  then have "1024 \<le> expo v" by simp
  then have "(2::real) powi 1024 \<le> 2 powi expo v" by (intro power_int_increasing) simp_all
  moreover have "(2::real) powi 1024 = 2 ^ 1024" by (simp only: power_int_def) simp
  ultimately show False using expo_bounds [OF assms(1)] assms(2) by linarith
qed

lemma fl_finite:
  assumes "\<bar>v\<bar> < 2 ^ 1024 - 2 ^ 970"
  shows "\<bar>fl v\<bar> < 2 ^ 1024"
proof (cases "v = 0")
  case True
  then show ?thesis by (simp add: fl_def)
next
  case False
  have p: "(0::real) < 2 ^ 970" by simp
  have "\<bar>v\<bar> < 2 ^ 1024" using assms p by linarith
  from expo_le_1023 [OF False this]
  have "max (expo v - 52) (- 1074) \<le> 971" by simp
  then have "(2::real) powi (max (expo v - 52) (- 1074)) \<le> 2 powi 971"
    by (intro power_int_increasing) simp_all
  moreover have "(2::real) powi 971 = 2 * 2 ^ 970" by (simp only: power_int_def) simp
  ultimately have "\<bar>fl v - v\<bar> \<le> 2 ^ 970" using fl_error_abs [of v] by linarith
  then show ?thesis using assms by linarith
qed

lemma fadd_finite:
  assumes "1 \<le> x" "x < real n" "real n \<le> 2 ^ 30" "\<bar>d\<bar> \<le> DBL_MAX"
  shows "\<bar>fadd x d\<bar> < 2 ^ 1024"
proof -
  have "(2::real) ^ 30 < 2 ^ 970" by (rule power_strict_increasing) simp_all
  moreover have "(2::real) ^ 971 = 2 * 2 ^ 970" by simp
  ultimately have "\<bar>x + d\<bar> < 2 ^ 1024 - 2 ^ 970"
    using assms unfolding DBL_MAX_def by linarith
  then show ?thesis unfolding fadd_def by (rule fl_finite)
qed

section \<open>Termination of generation\<close>

lemma carve_fuel_enough:
  "gen_measure s < n \<Longrightarrow> carve_fuel n sz rng s = Some (carve_loop sz rng s)"
proof (induction n arbitrary: s)
  case 0
  then show ?case by simp
next
  case (Suc n)
  show ?case
  proof (cases "stack s = []")
    case True
    then show ?thesis by (simp add: carve_loop.simps)
  next
    case False
    show ?thesis
    proof (cases "carve_step sz rng s")
      case (Inl e)
      then show ?thesis using False by (simp add: carve_loop.simps [of sz rng s])
    next
      case (Inr s')
      then have "gen_measure s' < gen_measure s"
        using carve_step_decreases False by blast
      then have "carve_fuel n sz rng s' = Some (carve_loop sz rng s')"
        using Suc.prems by (intro Suc.IH) simp
      then show ?thesis using False Inr by (simp add: carve_loop.simps [of sz rng s])
    qed
  qed
qed

lemma carve_loop_stack_empty: "carve_loop sz rng s = Inr s' \<Longrightarrow> stack s' = []"
proof (induction sz rng s rule: carve_loop.induct)
  case (1 sz rng s)
  then show ?case
    by (subst (asm) (2) carve_loop.simps) (auto split: if_splits sum.splits)
qed

lemma walls_replicate: "walls (replicate n (replicate n 1)) = n * n"
  by (simp add: walls_def sum_list_replicate)

lemma initial_measure:
  assumes "initial_state mem sz = Inr s0"
  shows "gen_measure s0 < nat (2 * sz * sz)"
proof -
  let ?g = "replicate (nat sz) (replicate (nat sz) (1::int))"
  have al: "allocates mem sz"
  proof (rule ccontr)
    assume "\<not> allocates mem sz"
    then show False using assms by (simp add: initial_state_def np_ones_fails)
  qed
  from assms have st: "stack s0 = [(1, 1)]" and m: "set2 ?g 1 1 0 = Inr (maze s0)"
    by (auto simp: initial_state_def np_ones_allocates [OF al] split: sum.splits)
  have sz: "0 \<le> sz" using al by (simp add: allocates_def)
  have r: "1 < int (nat sz)"
    using m by (auto simp: set2_def norm_index_def split: option.splits if_splits)
  have r': "Suc 0 < nat sz" using r by (simp split: if_splits)
  have "get2 ?g 1 1 = Inr 1"
    using r r' by (simp add: get2_def norm_index_def)
  from walls_set2_lt [OF this m] have "walls (maze s0) < nat sz * nat sz"
    by (simp add: walls_replicate)
  then have "2 * walls (maze s0) + 1 < 2 * (nat sz * nat sz)" by simp
  moreover have "nat (2 * sz * sz) = 2 * (nat sz * nat sz)"
    using sz by (simp add: nat_mult_distrib mult.assoc)
  ultimately show ?thesis using st by (simp add: gen_measure_def)
qed

section \<open>Wall sliding\<close>

text \<open>
  The doubles of the scenario: 2.4, and the rounded sums 2.4 + 0.3 (which is
  2.6999999999999997) and 2.4 + 0.5 (which is 2.9).
\<close>

lemma scenario_sums:
  "fl (24 / 10) = 5404319552844595 / 2251799813685248"
  "fadd (5404319552844595 / 2251799813685248) (fl (3 / 10)) =
     6079859496950169 / 2251799813685248"
  "fadd (5404319552844595 / 2251799813685248) (fl (5 / 10)) =
     6530219459687219 / 2251799813685248"
  by code_simp+

lemma scenario_py_int:
  "py_int (5404319552844595 / 2251799813685248) = 2"
  "py_int (6079859496950169 / 2251799813685248) = 2"
  "py_int (6530219459687219 / 2251799813685248) = 2"
  "py_int (fadd (5404319552844595 / 2251799813685248) (- PLAYER_RADIUS)) = 2"
  "py_int (fadd (5404319552844595 / 2251799813685248) PLAYER_RADIUS) = 2"
  "py_int (fadd (6079859496950169 / 2251799813685248) (- PLAYER_RADIUS)) = 2"
  "py_int (fadd (6079859496950169 / 2251799813685248) PLAYER_RADIUS) = 2"
  "py_int (fadd (6530219459687219 / 2251799813685248) (- PLAYER_RADIUS)) = 2"
  "py_int (fadd (6530219459687219 / 2251799813685248) PLAYER_RADIUS) = 3"
  by code_simp+

lemma scenario_int:
  "int_of_double (5404319552844595 / 2251799813685248) = Inr 2"
  "int_of_double (6079859496950169 / 2251799813685248) = Inr 2"
  "int_of_double (6530219459687219 / 2251799813685248) = Inr 2"
  "int_of_double (fadd (5404319552844595 / 2251799813685248) (- PLAYER_RADIUS)) = Inr 2"
  "int_of_double (fadd (5404319552844595 / 2251799813685248) PLAYER_RADIUS) = Inr 2"
  "int_of_double (fadd (6079859496950169 / 2251799813685248) (- PLAYER_RADIUS)) = Inr 2"
  "int_of_double (fadd (6079859496950169 / 2251799813685248) PLAYER_RADIUS) = Inr 2"
  "int_of_double (fadd (6530219459687219 / 2251799813685248) (- PLAYER_RADIUS)) = Inr 2"
  "int_of_double (fadd (6530219459687219 / 2251799813685248) PLAYER_RADIUS) = Inr 3"
  by (rule int_of_double_eval, rule scenario_py_int, simp)+

text \<open>
  C5, as the code has it. On every square grid whose cell (2,2) is a path, cell (2,3)
  a wall and cell (3,2) a path, a camera at (2.4, 2.4) that calls
  \<^verbatim>\<open>move(0.3, 0.3)\<close> ends at x = z = 2.6999999999999997, the double that the sum
  2.4 + 0.3 rounds to: both axis moves are committed, because the far edge of the
  collision square, at 2.9, is still inside cell (2,2). The z move is blocked, and
  the x move alone committed, for \<^verbatim>\<open>move(0.3, 0.5)\<close>.
\<close>

theorem wall_sliding_scenario:
  assumes sq: "square_grid n g"
    and c22: "get2 g 2 2 = Inr 0" and c23: "get2 g 2 3 = Inr 1" and c32: "get2 g 3 2 = Inr 0"
    and pos: "cam_x cam = fl (24 / 10)" "cam_z cam = fl (24 / 10)"
  shows "move g cam (fl (3 / 10)) (fl (3 / 10)) =
           Inr (cam\<lparr>cam_x := 6079859496950169 / 2251799813685248,
                    cam_z := 6079859496950169 / 2251799813685248\<rparr>) \<and>
         move g cam (fl (3 / 10)) (fl (5 / 10)) =
           Inr (cam\<lparr>cam_x := 6079859496950169 / 2251799813685248\<rparr>)"
proof -
  let ?a0 = "5404319552844595 / 2251799813685248 :: real"
  let ?a1 = "6079859496950169 / 2251799813685248 :: real"
  let ?a2 = "6530219459687219 / 2251799813685248 :: real"
  have r: "nat 2 < length g" "nat 3 < length (g ! nat 2)"
    using get2_in_range [OF c23] by auto
  then have n: "3 < n" using sq square_grid_row [OF sq, of 2] by (simp add: square_grid_def)
  then have l0: "length (g ! 0) = n" using square_grid_row [OF sq, of 0] by simp
  have len: "length g = n" using sq by (simp add: square_grid_def)
  have cc1: "check_corners g (corners PLAYER_RADIUS ?a1 ?a0) = Inr True"
    using c22 by (simp add: corners_def check_corners_step scenario_int del: check_corners.simps(2))
  have cm1: "can_move_r PLAYER_RADIUS g ?a1 ?a0 = Inr True"
    using n c22 cc1 by (simp add: can_move_r_def len l0 scenario_int)
  have cc2: "check_corners g (corners PLAYER_RADIUS ?a1 ?a1) = Inr True"
    using c22 by (simp add: corners_def check_corners_step scenario_int del: check_corners.simps(2))
  have cm2: "can_move_r PLAYER_RADIUS g ?a1 ?a1 = Inr True"
    using n c22 cc2 by (simp add: can_move_r_def len l0 scenario_int)
  have cc3: "check_corners g (corners PLAYER_RADIUS ?a1 ?a2) = Inr False"
    using c22 c23 by (simp add: corners_def check_corners_step scenario_int del: check_corners.simps(2))
  have cm3: "can_move_r PLAYER_RADIUS g ?a1 ?a2 = Inr False"
    using n c22 cc3 by (simp add: can_move_r_def len l0 scenario_int)
  have px: "cam_x cam = ?a0" "cam_z cam = ?a0"
    using pos by (simp_all only: scenario_sums(1))
  have "move g cam (fl (3 / 10)) (fl (3 / 10)) = Inr (cam\<lparr>cam_x := ?a1, cam_z := ?a1\<rparr>)"
    unfolding move_def move_r_def Let_def px scenario_sums(2,3)
    using cm1 cm2 by simp
  moreover have "move g cam (fl (3 / 10)) (fl (5 / 10)) = Inr (cam\<lparr>cam_x := ?a1\<rparr>)"
    unfolding move_def move_r_def Let_def px scenario_sums(2,3)
    using cm1 cm3 by simp
  ultimately show ?thesis by simp
qed


lemma sliding_scenario_cells:
  "square_grid 5 sliding_scenario_grid"
  "get2 sliding_scenario_grid 2 2 = Inr 0"
  "get2 sliding_scenario_grid 2 3 = Inr 1"
  "get2 sliding_scenario_grid 3 2 = Inr 0"
  by (simp_all add: sliding_scenario_grid_def square_grid_def get2_def norm_index_def)

theorem wall_sliding_scenario_witness:
  "move sliding_scenario_grid
     \<lparr>cam_x = fl (24 / 10), cam_y = 5 / 10, cam_z = fl (24 / 10), angle_yaw = 0\<rparr>
     (fl (3 / 10)) (fl (3 / 10)) =
   Inr \<lparr>cam_x = 6079859496950169 / 2251799813685248, cam_y = 5 / 10,
        cam_z = 6079859496950169 / 2251799813685248, angle_yaw = 0\<rparr> \<and>
   move sliding_scenario_grid
     \<lparr>cam_x = fl (24 / 10), cam_y = 5 / 10, cam_z = fl (24 / 10), angle_yaw = 0\<rparr>
     (fl (3 / 10)) (fl (5 / 10)) =
   Inr \<lparr>cam_x = 6079859496950169 / 2251799813685248, cam_y = 5 / 10,
        cam_z = fl (24 / 10), angle_yaw = 0\<rparr>"
  using wall_sliding_scenario [OF sliding_scenario_cells,
      of "\<lparr>cam_x = fl (24 / 10), cam_y = 5 / 10, cam_z = fl (24 / 10), angle_yaw = 0\<rparr>"]
  by simp

text \<open>
  C5, as the specification states it, fails on the scenario grid: z does not stay at
  2.4, the call ends with z = 2.6999999999999997.
\<close>

theorem wall_sliding_z_not_blocked:
  "move sliding_scenario_grid
     \<lparr>cam_x = fl (24 / 10), cam_y = 5 / 10, cam_z = fl (24 / 10), angle_yaw = 0\<rparr>
     (fl (3 / 10)) (fl (3 / 10)) =
   Inr \<lparr>cam_x = 6079859496950169 / 2251799813685248, cam_y = 5 / 10,
        cam_z = 6079859496950169 / 2251799813685248, angle_yaw = 0\<rparr> \<and>
   (6079859496950169 / 2251799813685248 :: real) \<noteq> fl (24 / 10)"
proof -
  let ?a0 = "5404319552844595 / 2251799813685248 :: real"
  let ?a1 = "6079859496950169 / 2251799813685248 :: real"
  note c = sliding_scenario_cells
  have l: "length sliding_scenario_grid = 5" "length (sliding_scenario_grid ! 0) = 5"
    by (simp_all add: sliding_scenario_grid_def)
  have cc1: "check_corners sliding_scenario_grid (corners PLAYER_RADIUS ?a1 ?a0) = Inr True"
    using c(2) by (simp add: corners_def check_corners_step scenario_int del: check_corners.simps(2))
  have cm1: "can_move_r PLAYER_RADIUS sliding_scenario_grid ?a1 ?a0 = Inr True"
    using c(2) cc1 by (simp add: can_move_r_def l scenario_int)
  have cc2: "check_corners sliding_scenario_grid (corners PLAYER_RADIUS ?a1 ?a1) = Inr True"
    using c(2) by (simp add: corners_def check_corners_step scenario_int del: check_corners.simps(2))
  have cm2: "can_move_r PLAYER_RADIUS sliding_scenario_grid ?a1 ?a1 = Inr True"
    using c(2) cc2 by (simp add: can_move_r_def l scenario_int)
  have "move sliding_scenario_grid
     \<lparr>cam_x = fl (24 / 10), cam_y = 5 / 10, cam_z = fl (24 / 10), angle_yaw = 0\<rparr>
     (fl (3 / 10)) (fl (3 / 10)) =
   Inr \<lparr>cam_x = ?a1, cam_y = 5 / 10, cam_z = ?a1, angle_yaw = 0\<rparr>"
    unfolding move_def move_r_def Let_def scenario_sums camera.simps
    using cm1 cm2 by simp
  moreover have "?a1 \<noteq> fl (24 / 10)" unfolding scenario_sums(1) by simp
  ultimately show ?thesis by simp
qed

section \<open>Counting the carve steps\<close>

text \<open>
  C7, as the code has it. For every size from 2 on whose array the machine allocates
  and every random source, generation returns; each carve step clears two cells, the midpoint and the
  chosen cell, so the finished grid has twice as many path cells as there were carve
  steps (wall removals), plus the start cell: the number of wall removals is half of
  (number of path cells - 1).
\<close>

theorem carve_count:
  assumes "2 \<le> sz" and "allocates mem sz"
  shows "\<exists>s. generate_state mem sz rng = Inr s \<and> generate_maze mem sz rng = Inr (maze s) \<and>
           path_count (maze s) = 2 * draws s + 1"
  using generate_state_inv [OF assms, of rng]
  by (auto simp: gen_inv_def generate_maze_def)

theorem carve_count_witness:
  "generate_state mem_sample 5 rng_first = Inr \<lparr>maze = grid5, stack = [], draws = 3\<rparr> \<and>
   generate_maze mem_sample 5 rng_first = Inr grid5 \<and> path_count grid5 = 2 * 3 + 1"
  using carve_count [of 5 mem_sample rng_first] generate_state_5
  by (auto simp: allocates_def mem_sample_def)

text \<open>
  C7, as the specification states it, fails at size five: three walls are removed and
  the grid has seven path cells, not four.
\<close>

theorem carve_count_not_paths_minus_one:
  "generate_state mem_sample 5 rng_first = Inr \<lparr>maze = grid5, stack = [], draws = 3\<rparr> \<and>
   path_count grid5 = 7 \<and> (3::nat) \<noteq> 7 - 1"
proof -
  have "path_count grid5 = 7" by (simp add: path_count_def grid5_def)
  then show ?thesis using generate_state_5 by simp
qed

section \<open>The generated maze is perfect\<close>

text \<open>
  C2. For every size from 2 on whose array the machine allocates (so for every odd
  size from 5 on that it allocates) and every random source, generation returns a grid in which the start cell (1,1) is a path cell, any
  two path cells are joined by exactly one simple path of path cells under
  4-adjacency (so all path cells are reachable from the start cell and form one
  component), and there is no cycle of path cells: the path cells form a tree.
\<close>

theorem perfect_maze:
  assumes "2 \<le> sz" and "allocates mem sz"
  shows "\<exists>g. generate_maze mem sz rng = Inr g \<and> is_path g (1, 1) \<and>
           (\<forall>a b. is_path g a \<and> is_path g b \<longrightarrow> (\<exists>!p. simple_path g a b p)) \<and>
           (\<forall>p. \<not> cycle g p)"
proof -
  from generate_state_inv [OF assms, of rng]
  obtain s where gs: "generate_state mem sz rng = Inr s" and inv: "gen_inv sz s" by blast
  define g where "g = maze s"
  have gm: "generate_maze mem sz rng = Inr g" and s: "maze s = g"
    using gs by (simp_all add: generate_maze_def g_def)
  have t: "tree (paths g)" and st: "(1, 1) \<in> paths g"
    using inv s unfolding gen_inv_def by auto
  have "\<exists>!p. simple_path g a b p" if "is_path g a \<and> is_path g b" for a b
    using t that unfolding tree_def simple_path_spath paths_def by blast
  then show ?thesis using gm st tree_no_cycle [OF t] by (simp add: paths_def)
qed

theorem perfect_maze_witness:
  "generate_maze mem_sample 5 rng_first = Inr grid5 \<and> is_path grid5 (1, 1) \<and> is_path grid5 (3, 1) \<and>
   (\<exists>!p. simple_path grid5 (1, 1) (3, 1) p) \<and>
   simple_path grid5 (1, 1) (3, 1) [(1, 1), (1, 2), (1, 3), (2, 3), (3, 3), (3, 2), (3, 1)] \<and>
   \<not> cycle grid5 [(1, 1), (1, 2), (1, 3)]"
proof -
  have p: "is_path grid5 (1, 1)" "is_path grid5 (3, 1)"
    by (simp_all add: is_path_def cell_at_def grid5_def)
  have sp: "simple_path grid5 (1, 1) (3, 1) [(1, 1), (1, 2), (1, 3), (2, 3), (3, 3), (3, 2), (3, 1)]"
    by (simp add: simple_path_def is_path_def cell_at_def grid5_def adjacent_def)
  show ?thesis
    using perfect_maze [of 5 mem_sample rng_first] generate_maze_5 p sp
    by (auto simp: allocates_def mem_sample_def)
qed

section \<open>Goal selection\<close>

text \<open>Generation followed by the scan for the goal.\<close>

lemma generation_and_goal:
  assumes "2 \<le> sz" and "allocates mem sz"
  shows "\<exists>g c. generate_maze mem sz rng = Inr g \<and> square_grid (nat sz) g \<and>
           scan_rows g (nat (sz - 1)) (nat (sz - 1)) = Inr (Some c) \<and>
           find_valid_portal_position sz g = Inr c \<and>
           List.find (is_path g) (scan_order sz) = Some c \<and>
           is_path g c"
proof -
  from generate_state_inv [OF assms, of rng]
  obtain s where gs: "generate_state mem sz rng = Inr s" and inv: "gen_inv sz s" by blast
  define g where "g = maze s"
  have gm: "generate_maze mem sz rng = Inr g" using gs by (simp add: generate_maze_def g_def)
  have sq: "square_grid (nat sz) g" and st: "is_path g (1, 1)"
    using inv unfolding gen_inv_def g_def paths_def by auto
  have lt: "nat (sz - 1) < nat sz" using assms(1) by simp
  have i: "int (nat (sz - 1)) = sz - 1" using assms(1) by simp
  have sc: "scan_rows g (nat (sz - 1)) (nat (sz - 1)) =
              Inr (List.find (is_path g) (scan_order sz))"
    using scan_rows_find [OF sq lt lt] unfolding scan_order_def i .
  have "(1::int) \<in> {1..sz - 1}" using assms(1) by simp
  then have "(1, 1) \<in> set (scan_order sz)"
    unfolding scan_order_def by (auto intro!: bexI [of _ 1])
  then have "List.find (is_path g) (scan_order sz) \<noteq> None"
    using st by (auto simp: find_None_iff)
  then obtain c where c: "List.find (is_path g) (scan_order sz) = Some c" by blast
  then have pc: "is_path g c" by (auto simp: find_Some_iff)
  have "find_valid_portal_position sz g = Inr c"
    using sc c by (simp add: find_valid_portal_position_def)
  then show ?thesis
    using gm sq sc c pc by (intro exI [of _ g] exI [of _ c]) simp
qed

text \<open>
  C8. For every size from 2 on whose array the machine allocates and every random
  source, generation returns a grid on
  which \<^verbatim>\<open>find_valid_portal_position\<close> returns the first path cell of the scan
  order (rows from \<open>N - 1\<close> down to 1, columns from \<open>N - 1\<close> down to 1). The scan
  itself finds that cell, so the fallback \<^verbatim>\<open>return (1, 1)\<close> after the loops is
  never taken, and the cell is a path cell inside the grid.
\<close>

theorem portal_position:
  assumes "2 \<le> sz" and "allocates mem sz"
  shows "\<exists>g c. generate_maze mem sz rng = Inr g \<and>
           scan_rows g (nat (sz - 1)) (nat (sz - 1)) = Inr (Some c) \<and>
           find_valid_portal_position sz g = Inr c \<and>
           List.find (is_path g) (scan_order sz) = Some c \<and>
           is_path g c"
  using generation_and_goal [OF assms, of rng] by blast

theorem portal_position_witness:
  "generate_maze mem_sample 5 rng_first = Inr grid5 \<and>
   scan_rows grid5 4 4 = Inr (Some (3, 3)) \<and>
   find_valid_portal_position 5 grid5 = Inr (3, 3) \<and>
   List.find (is_path grid5) (scan_order 5) = Some (3, 3) \<and>
   is_path grid5 (3, 3)"
proof -
  have "find_valid_portal_position 5 grid5 = Inr (3, 3)"
    unfolding grid5_def by code_simp
  then show ?thesis
    using portal_position [of 5 mem_sample rng_first] generate_maze_5
    by (auto simp: allocates_def mem_sample_def)
qed

section \<open>Errors of construction\<close>




section \<open>Fail-closed disc query\<close>








section \<open>Generation terminates\<close>

text \<open>
  C10. The carving loop ends from every state, for every size and every random
  source: after at most \<open>gen_measure s + 1\<close> evaluations of the loop condition it
  has returned, with an empty stack unless the body raised. In
  \<^verbatim>\<open>generate_maze\<close>, for every size from 2 on whose array the machine
  allocates, the loop starts, raises nothing and ends with an empty stack within
  \<open>2 * N * N\<close> evaluations of its condition, and its array is the result; for every
  other size an exception is raised before the loop is reached.
\<close>

theorem carve_loop_terminates:
  "(\<exists>r. carve_fuel (Suc (gen_measure s)) sz rng s = Some r \<and>
        (case r of Inl e \<Rightarrow> True | Inr s' \<Rightarrow> stack s' = [])) \<and>
   (2 \<le> sz \<and> allocates mem sz \<longrightarrow>
      (\<exists>s0 s'. initial_state mem sz = Inr s0 \<and>
               carve_fuel (nat (2 * sz * sz)) sz rng s0 = Some (Inr s') \<and>
               stack s' = [] \<and> generate_maze mem sz rng = Inr (maze s'))) \<and>
   (\<not> (2 \<le> sz \<and> allocates mem sz) \<longrightarrow> (\<exists>e. initial_state mem sz = Inl e))"
proof (intro conjI impI)
  show "\<exists>r. carve_fuel (Suc (gen_measure s)) sz rng s = Some r \<and>
          (case r of Inl e \<Rightarrow> True | Inr s' \<Rightarrow> stack s' = [])"
    using carve_fuel_enough [of s "Suc (gen_measure s)" sz rng]
      carve_loop_stack_empty [of sz rng s]
    by (auto split: sum.splits)
next
  assume "2 \<le> sz \<and> allocates mem sz"
  then have sz: "2 \<le> sz" "allocates mem sz" by simp_all
  from initial_state_inv [OF sz]
  obtain s0 where s0: "initial_state mem sz = Inr s0" and i0: "gen_inv sz s0" by blast
  from carve_loop_inv [OF i0, of rng]
  obtain s' where l: "carve_loop sz rng s0 = Inr s'" and e: "stack s' = []" by blast
  have "carve_fuel (nat (2 * sz * sz)) sz rng s0 = Some (Inr s')"
    using carve_fuel_enough [OF initial_measure [OF s0], of sz rng] l by simp
  moreover have "generate_maze mem sz rng = Inr (maze s')"
    using s0 l by (simp add: generate_maze_def generate_state_def)
  ultimately show "\<exists>s0 s'. initial_state mem sz = Inr s0 \<and>
      carve_fuel (nat (2 * sz * sz)) sz rng s0 = Some (Inr s') \<and>
      stack s' = [] \<and> generate_maze mem sz rng = Inr (maze s')"
    using s0 e by blast
next
  assume "\<not> (2 \<le> sz \<and> allocates mem sz)"
  from initial_state_error [OF this] show "\<exists>e. initial_state mem sz = Inl e" by blast
qed

theorem carve_loop_terminates_witness:
  "(\<exists>s0. initial_state mem_sample 5 = Inr s0 \<and>
         carve_fuel 50 5 rng_first s0 = Some (Inr \<lparr>maze = grid5, stack = [], draws = 3\<rparr>)) \<and>
   generate_maze mem_sample 5 rng_first = Inr grid5 \<and>
   initial_state mem_sample 1 = Inl IndexError"
proof -
  have al: "(2::int) \<le> 5 \<and> allocates mem_sample 5"
    by (simp add: allocates_def mem_sample_def)
  have "2 \<le> (5::int) \<and> allocates mem_sample 5 \<longrightarrow>
          (\<exists>s0 s'. initial_state mem_sample 5 = Inr s0 \<and>
             carve_fuel (nat (2 * 5 * 5)) 5 rng_first s0 = Some (Inr s') \<and>
             stack s' = [] \<and> generate_maze mem_sample 5 rng_first = Inr (maze s'))"
    using carve_loop_terminates
      [of "\<lparr>maze = [], stack = [], draws = 0\<rparr>" 5 rng_first mem_sample]
    by (rule conjunct2 [THEN conjunct1])
  then obtain s0 s' where s0: "initial_state mem_sample 5 = Inr s0"
    and f: "carve_fuel (nat (2 * 5 * 5)) 5 rng_first s0 = Some (Inr s')"
    using al by auto
  have e: "initial_state mem_sample 1 = Inl IndexError"
    using initial_state_error [of 1 mem_sample] by (simp add: allocates_def mem_sample_def)
  have "carve_fuel (nat (2 * 5 * 5)) 5 rng_first s0 = Some (carve_loop 5 rng_first s0)"
    using s0 by (intro carve_fuel_enough initial_measure)
  then have "Inr s' = generate_state mem_sample 5 rng_first"
    using f s0 by (simp add: generate_state_def)
  then have "s' = \<lparr>maze = grid5, stack = [], draws = 3\<rparr>"
    using generate_state_5 by simp
  then show ?thesis using s0 f e generate_maze_5 by simp
qed

end
